theory Spec2Isabelle
  imports Complex_Main "HOL-Library.Word"
begin

unbundle bit_operations_syntax

section \<open>Common types\<close>

type_synonym u64 = "64 word"

text \<open>
  A failed \<open>CHECK\<close> or \<open>LOG(FATAL)\<close> aborts the process; the model returns it as
  a value.  \<open>RpcFailed\<close> is the exception \<open>rpc::RpcFailedException\<close>;
  \<open>Undefined\<close> marks behaviour C++ leaves undefined (an iterator moved out of its
  range, an inactive union member read, an object destroyed twice).
\<close>

datatype error = CheckFailed string | Fatal string | RpcFailed | Undefined string

section \<open>The tagged back pointer (\<open>storage/v2/delta.hpp\<close>, class \<open>PreviousPtr\<close>)\<close>

text \<open>\<open>uintptr_t\<close> is a 64-bit word; a pointer is the word \<open>reinterpret_cast\<close> gives.\<close>

definition kDelta :: u64 where "kDelta = 1"
definition kVertex :: u64 where "kVertex = 2"
definition kEdge :: u64 where "kEdge = 3"
definition kMask :: u64 where "kMask = 3"

datatype PtrType = DELTA | VERTEX | EDGE

record PreviousPtr =
  ptr_storage :: u64

definition Set_Delta :: "u64 \<Rightarrow> PreviousPtr \<Rightarrow> error + PreviousPtr" where
  "Set_Delta delta this =
     (let val = delta in
      if val AND kMask = 0 then Inr (this\<lparr>ptr_storage := val OR kDelta\<rparr>)
      else Inl (CheckFailed ''Invalid pointer!''))"

definition Set_Vertex :: "u64 \<Rightarrow> PreviousPtr \<Rightarrow> error + PreviousPtr" where
  "Set_Vertex vertex this =
     (let val = vertex in
      if val AND kMask = 0 then Inr (this\<lparr>ptr_storage := val OR kVertex\<rparr>)
      else Inl (CheckFailed ''Invalid pointer!''))"

definition Set_Edge :: "u64 \<Rightarrow> PreviousPtr \<Rightarrow> error + PreviousPtr" where
  "Set_Edge edge this =
     (let val = edge in
      if val AND kMask = 0 then Inr (this\<lparr>ptr_storage := val OR kEdge\<rparr>)
      else Inl (CheckFailed ''Invalid pointer!''))"

definition GetType :: "PreviousPtr \<Rightarrow> error + PtrType" where
  "GetType this =
     (let type = ptr_storage this AND kMask in
      if type = kDelta then Inr DELTA
      else if type = kVertex then Inr VERTEX
      else if type = kEdge then Inr EDGE
      else Inl (Fatal ''Invalid pointer type!''))"

definition GetDelta :: "PreviousPtr \<Rightarrow> error + u64" where
  "GetDelta this =
     (if ptr_storage this AND kMask = kDelta then Inr (ptr_storage this AND NOT kMask)
      else Inl (CheckFailed ''Can't convert pointer to delta!''))"

definition GetVertex :: "PreviousPtr \<Rightarrow> error + u64" where
  "GetVertex this =
     (if ptr_storage this AND kMask = kVertex then Inr (ptr_storage this AND NOT kMask)
      else Inl (CheckFailed ''Can't convert pointer to vertex!''))"

definition GetEdge :: "PreviousPtr \<Rightarrow> error + u64" where
  "GetEdge this =
     (if ptr_storage this AND kMask = kEdge then Inr (ptr_storage this AND NOT kMask)
      else Inl (CheckFailed ''Can't convert pointer to edge!''))"

text \<open>A pointer is 8-byte aligned when its three low bits are zero.\<close>

definition aligned8 :: "u64 \<Rightarrow> bool" where
  "aligned8 p \<longleftrightarrow> p AND 7 = 0"


section \<open>Property values (\<open>storage/v2/property_value.hpp\<close>)\<close>

text \<open>
  The header that defines \<open>PropertyValue\<close> is not among the sources; only its unit
  tests are.  The definitions of this section are modelled from the specification
  (sections 3 and 4.1) and from what the tests construct.
\<close>

text \<open>Modelled from the spec: the enum \<open>TemporalType\<close> of the missing
  \<open>storage/v2/temporal.hpp\<close> (the "kind" of a temporal value); \<open>Date\<close> is the
  only value the tests name.\<close>

datatype TemporalType = Date | LocalTime | LocalDateTime | Duration

text \<open>Modelled from the spec: the variant \<open>PropertyValue\<close> of the missing
  \<open>property_value.hpp\<close>: null, bool, i64, f64, string, list, map (a \<open>std::map\<close>,
  here its entries in key order) and temporal \<open>{kind, microseconds}\<close>.  An \<open>f64\<close> is
  modelled by the real number it denotes.\<close>

datatype PropertyValue =
    PV_Null
  | PV_Bool bool
  | PV_Int int
  | PV_Double real
  | PV_String string
  | PV_List "PropertyValue list"
  | PV_Map "(string \<times> PropertyValue) list"
  | PV_TemporalData TemporalType int

text \<open>Modelled from the spec: the move constructor of the missing \<open>PropertyValue\<close>
  ("Move leaves the source in the null state").  It returns the new value and what is
  left in the source.\<close>

definition PropertyValue_move :: "PropertyValue \<Rightarrow> PropertyValue \<times> PropertyValue" where
  "PropertyValue_move other = (other, PV_Null)"

section \<open>Deltas (\<open>storage/v2/delta.hpp\<close>, struct \<open>Delta\<close>)\<close>

datatype Action =
    DELETE_OBJECT
  | RECREATE_OBJECT
  | SET_PROPERTY
  | ADD_LABEL
  | REMOVE_LABEL
  | ADD_IN_EDGE
  | ADD_OUT_EDGE
  | REMOVE_IN_EDGE
  | REMOVE_OUT_EDGE

text \<open>
  The anonymous union of \<open>Delta\<close>.  Its \<open>property.value\<close> member is an object with a
  lifetime of its own: \<open>Live v\<close> between placement-new and the destructor call,
  \<open>Destroyed\<close> after \<open>~PropertyValue()\<close>.  \<open>Uninitialised\<close> is the union no
  constructor has written.
\<close>

datatype value_slot = Live PropertyValue | Destroyed

datatype delta_union =
    Uninitialised
  | Label u64
  | Property u64 value_slot
  | VertexEdge u64 u64 u64

record Delta =
  action :: Action
  timestamp :: u64
  command_id :: u64
  prev :: PreviousPtr
  next_delta :: u64
  payload :: delta_union

definition Delta_DeleteObject :: "u64 \<Rightarrow> u64 \<Rightarrow> Delta" where
  "Delta_DeleteObject ts cid =
     \<lparr>action = DELETE_OBJECT, timestamp = ts, command_id = cid,
      prev = \<lparr>ptr_storage = 0\<rparr>, next_delta = 0, payload = Uninitialised\<rparr>"

definition Delta_RecreateObject :: "u64 \<Rightarrow> u64 \<Rightarrow> Delta" where
  "Delta_RecreateObject ts cid =
     \<lparr>action = RECREATE_OBJECT, timestamp = ts, command_id = cid,
      prev = \<lparr>ptr_storage = 0\<rparr>, next_delta = 0, payload = Uninitialised\<rparr>"

definition Delta_AddLabel :: "u64 \<Rightarrow> u64 \<Rightarrow> u64 \<Rightarrow> Delta" where
  "Delta_AddLabel label ts cid =
     \<lparr>action = ADD_LABEL, timestamp = ts, command_id = cid,
      prev = \<lparr>ptr_storage = 0\<rparr>, next_delta = 0, payload = Label label\<rparr>"

definition Delta_RemoveLabel :: "u64 \<Rightarrow> u64 \<Rightarrow> u64 \<Rightarrow> Delta" where
  "Delta_RemoveLabel label ts cid =
     \<lparr>action = REMOVE_LABEL, timestamp = ts, command_id = cid,
      prev = \<lparr>ptr_storage = 0\<rparr>, next_delta = 0, payload = Label label\<rparr>"

definition Delta_SetProperty :: "u64 \<Rightarrow> PropertyValue \<Rightarrow> u64 \<Rightarrow> u64 \<Rightarrow> Delta" where
  "Delta_SetProperty key val ts cid =
     \<lparr>action = SET_PROPERTY, timestamp = ts, command_id = cid,
      prev = \<lparr>ptr_storage = 0\<rparr>, next_delta = 0, payload = Property key (Live val)\<rparr>"

definition Delta_AddInEdge :: "u64 \<Rightarrow> u64 \<Rightarrow> u64 \<Rightarrow> u64 \<Rightarrow> u64 \<Rightarrow> Delta" where
  "Delta_AddInEdge edge_type vertex edge ts cid =
     \<lparr>action = ADD_IN_EDGE, timestamp = ts, command_id = cid,
      prev = \<lparr>ptr_storage = 0\<rparr>, next_delta = 0, payload = VertexEdge edge_type vertex edge\<rparr>"

definition Delta_AddOutEdge :: "u64 \<Rightarrow> u64 \<Rightarrow> u64 \<Rightarrow> u64 \<Rightarrow> u64 \<Rightarrow> Delta" where
  "Delta_AddOutEdge edge_type vertex edge ts cid =
     \<lparr>action = ADD_OUT_EDGE, timestamp = ts, command_id = cid,
      prev = \<lparr>ptr_storage = 0\<rparr>, next_delta = 0, payload = VertexEdge edge_type vertex edge\<rparr>"

definition Delta_RemoveInEdge :: "u64 \<Rightarrow> u64 \<Rightarrow> u64 \<Rightarrow> u64 \<Rightarrow> u64 \<Rightarrow> Delta" where
  "Delta_RemoveInEdge edge_type vertex edge ts cid =
     \<lparr>action = REMOVE_IN_EDGE, timestamp = ts, command_id = cid,
      prev = \<lparr>ptr_storage = 0\<rparr>, next_delta = 0, payload = VertexEdge edge_type vertex edge\<rparr>"

definition Delta_RemoveOutEdge :: "u64 \<Rightarrow> u64 \<Rightarrow> u64 \<Rightarrow> u64 \<Rightarrow> u64 \<Rightarrow> Delta" where
  "Delta_RemoveOutEdge edge_type vertex edge ts cid =
     \<lparr>action = REMOVE_OUT_EDGE, timestamp = ts, command_id = cid,
      prev = \<lparr>ptr_storage = 0\<rparr>, next_delta = 0, payload = VertexEdge edge_type vertex edge\<rparr>"

text \<open>\<open>DestroyValue\<close>: only \<open>SET_PROPERTY\<close> owns an object to destroy.  Calling the
  destructor of a value that is not alive is undefined behaviour.\<close>

definition DestroyValue :: "Delta \<Rightarrow> error + Delta" where
  "DestroyValue this =
     (case action this of
        SET_PROPERTY \<Rightarrow>
          (case payload this of
             Property key (Live v) \<Rightarrow> Inr (this\<lparr>payload := Property key Destroyed\<rparr>)
           | Property key Destroyed \<Rightarrow> Inl (Undefined ''property value destroyed twice'')
           | _ \<Rightarrow> Inl (Undefined ''inactive union member''))
      | _ \<Rightarrow> Inr this)"

text \<open>The destructor \<open>~Delta()\<close>.\<close>

definition Delta_destructor :: "Delta \<Rightarrow> error + Delta" where
  "Delta_destructor this = DestroyValue this"

text \<open>
  The move constructor \<open>Delta(Delta &&other)\<close>.  It returns the new delta and the
  moved-from one.  The switch copies the active union member (moving the property
  value, which leaves a live null value behind); then the source destroys its value
  and only afterwards has its action reset.
\<close>

definition Delta_move_members :: "Delta \<Rightarrow> error + (delta_union \<times> delta_union)" where
  "Delta_move_members other =
     (case action other of
        DELETE_OBJECT \<Rightarrow> Inr (Uninitialised, payload other)
      | RECREATE_OBJECT \<Rightarrow> Inr (Uninitialised, payload other)
      | ADD_LABEL \<Rightarrow>
          (case payload other of Label l \<Rightarrow> Inr (Label l, payload other)
           | _ \<Rightarrow> Inl (Undefined ''inactive union member''))
      | REMOVE_LABEL \<Rightarrow>
          (case payload other of Label l \<Rightarrow> Inr (Label l, payload other)
           | _ \<Rightarrow> Inl (Undefined ''inactive union member''))
      | SET_PROPERTY \<Rightarrow>
          (case payload other of
             Property key (Live v) \<Rightarrow>
               (let (mine, theirs) = PropertyValue_move v
                in Inr (Property key (Live mine), Property key (Live theirs)))
           | _ \<Rightarrow> Inl (Undefined ''inactive union member''))
      | _ \<Rightarrow>
          (case payload other of
             VertexEdge t v e \<Rightarrow> Inr (VertexEdge t v e, payload other)
           | _ \<Rightarrow> Inl (Undefined ''inactive union member'')))"

definition Delta_move :: "Delta \<Rightarrow> error + (Delta \<times> Delta)" where
  "Delta_move other =
     (case Delta_move_members other of
        Inl e \<Rightarrow> Inl e
      | Inr (mine, theirs) \<Rightarrow>
          (let this = \<lparr>action = action other, timestamp = timestamp other,
                       command_id = command_id other, prev = prev other,
                       next_delta = next_delta other, payload = mine\<rparr>
           in case DestroyValue (other\<lparr>payload := theirs\<rparr>) of
                Inl e \<Rightarrow> Inl e
              | Inr other' \<Rightarrow> Inr (this, other'\<lparr>action := DELETE_OBJECT\<rparr>)))"

text \<open>
  A delta is consistent when the union member its action selects is the active one,
  with a live property value under \<open>SET_PROPERTY\<close>.  Every constructor builds a
  consistent delta and the move constructor keeps both deltas consistent.
\<close>

definition consistent :: "Delta \<Rightarrow> bool" where
  "consistent d =
     (case action d of
        DELETE_OBJECT \<Rightarrow> True
      | RECREATE_OBJECT \<Rightarrow> True
      | SET_PROPERTY \<Rightarrow> (case payload d of Property key (Live v) \<Rightarrow> True | _ \<Rightarrow> False)
      | ADD_LABEL \<Rightarrow> (case payload d of Label l \<Rightarrow> True | _ \<Rightarrow> False)
      | REMOVE_LABEL \<Rightarrow> (case payload d of Label l \<Rightarrow> True | _ \<Rightarrow> False)
      | _ \<Rightarrow> (case payload d of VertexEdge t v e \<Rightarrow> True | _ \<Rightarrow> False))"

text \<open>Whether the property value held in a delta's union has been destroyed.\<close>

definition value_destroyed :: "Delta \<Rightarrow> bool" where
  "value_destroyed d = (case payload d of Property key Destroyed \<Rightarrow> True | _ \<Rightarrow> False)"

section \<open>Property values: kinds, typed accessors, equality and order\<close>

text \<open>Modelled from the spec: the enum \<open>PropertyValue::Type\<close> of the missing
  \<open>property_value.hpp\<close>, in the order of the type tag.\<close>

datatype Type =
    Type_Null
  | Type_Bool
  | Type_Int
  | Type_Double
  | Type_String
  | Type_List
  | Type_Map
  | Type_TemporalData

text \<open>Modelled from the spec: \<open>PropertyValue::type()\<close> of the missing
  \<open>property_value.hpp\<close>.\<close>

fun type_of :: "PropertyValue \<Rightarrow> Type" where
  "type_of PV_Null = Type_Null"
| "type_of (PV_Bool b) = Type_Bool"
| "type_of (PV_Int i) = Type_Int"
| "type_of (PV_Double d) = Type_Double"
| "type_of (PV_String s) = Type_String"
| "type_of (PV_List l) = Type_List"
| "type_of (PV_Map m) = Type_Map"
| "type_of (PV_TemporalData k us) = Type_TemporalData"

text \<open>Modelled from the spec: the error of a typed accessor of the missing
  \<open>property_value.hpp\<close> called on the wrong kind (\<open>PropertyValueError::WrongType\<close>; the
  tests catch it as \<open>PropertyValueException\<close>).\<close>

datatype PropertyValueError = WrongType

text \<open>Modelled from the spec: the typed accessors of the missing
  \<open>property_value.hpp\<close> ("typed accessors that fail with
  \<open>PropertyValueError::WrongType\<close> unless the value matches").\<close>

definition ValueBool :: "PropertyValue \<Rightarrow> PropertyValueError + bool" where
  "ValueBool pv = (if type_of pv \<noteq> Type_Bool then Inl WrongType
                   else case pv of PV_Bool b \<Rightarrow> Inr b | _ \<Rightarrow> Inl WrongType)"

definition ValueInt :: "PropertyValue \<Rightarrow> PropertyValueError + int" where
  "ValueInt pv = (if type_of pv \<noteq> Type_Int then Inl WrongType
                  else case pv of PV_Int i \<Rightarrow> Inr i | _ \<Rightarrow> Inl WrongType)"

definition ValueDouble :: "PropertyValue \<Rightarrow> PropertyValueError + real" where
  "ValueDouble pv = (if type_of pv \<noteq> Type_Double then Inl WrongType
                     else case pv of PV_Double d \<Rightarrow> Inr d | _ \<Rightarrow> Inl WrongType)"

definition ValueString :: "PropertyValue \<Rightarrow> PropertyValueError + string" where
  "ValueString pv = (if type_of pv \<noteq> Type_String then Inl WrongType
                     else case pv of PV_String s \<Rightarrow> Inr s | _ \<Rightarrow> Inl WrongType)"

definition ValueList :: "PropertyValue \<Rightarrow> PropertyValueError + PropertyValue list" where
  "ValueList pv = (if type_of pv \<noteq> Type_List then Inl WrongType
                   else case pv of PV_List l \<Rightarrow> Inr l | _ \<Rightarrow> Inl WrongType)"

definition ValueMap :: "PropertyValue \<Rightarrow> PropertyValueError + (string \<times> PropertyValue) list"
  where
  "ValueMap pv = (if type_of pv \<noteq> Type_Map then Inl WrongType
                  else case pv of PV_Map m \<Rightarrow> Inr m | _ \<Rightarrow> Inl WrongType)"

definition ValueTemporalData :: "PropertyValue \<Rightarrow> PropertyValueError + (TemporalType \<times> int)"
  where
  "ValueTemporalData pv =
     (if type_of pv \<noteq> Type_TemporalData then Inl WrongType
      else case pv of PV_TemporalData k us \<Rightarrow> Inr (k, us) | _ \<Rightarrow> Inl WrongType)"

text \<open>Modelled from the spec: the "stable type ordering" of disparate kinds in the
  missing \<open>property_value.hpp\<close>, "consistent with the type tag's integer value".\<close>

fun type_tag :: "Type \<Rightarrow> nat" where
  "type_tag Type_Null = 0"
| "type_tag Type_Bool = 1"
| "type_tag Type_Int = 2"
| "type_tag Type_Double = 3"
| "type_tag Type_String = 4"
| "type_tag Type_List = 5"
| "type_tag Type_Map = 6"
| "type_tag Type_TemporalData = 7"

text \<open>Modelled from the spec: which kinds the missing \<open>property_value.hpp\<close> compares by
  value: like kinds, and int with double ("numeric comparison unifies int and
  double").\<close>

definition AreComparableTypes :: "Type \<Rightarrow> Type \<Rightarrow> bool" where
  "AreComparableTypes a b \<longleftrightarrow>
     a = b \<or> (a = Type_Int \<and> b = Type_Double) \<or> (a = Type_Double \<and> b = Type_Int)"

text \<open>Modelled from the spec: the position of a temporal kind in the enum
  \<open>TemporalType\<close> of the missing \<open>storage/v2/temporal.hpp\<close>.\<close>

fun temporal_tag :: "TemporalType \<Rightarrow> nat" where
  "temporal_tag Date = 0"
| "temporal_tag LocalTime = 1"
| "temporal_tag LocalDateTime = 2"
| "temporal_tag Duration = 3"

text \<open>Modelled from the spec: \<open>operator<\<close> of \<open>std::string\<close>, the lexicographic order
  of the bytes.\<close>

fun string_less :: "string \<Rightarrow> string \<Rightarrow> bool" where
  "string_less [] [] = False"
| "string_less [] (d # t) = True"
| "string_less (c # s) [] = False"
| "string_less (c # s) (d # t) =
     (if (of_char c :: nat) < of_char d then True
      else if (of_char d :: nat) < of_char c then False
      else string_less s t)"

text \<open>Modelled from the spec: \<open>operator==\<close> and \<open>operator<\<close> of the missing
  \<open>property_value.hpp\<close>.  Equality is deep and numeric across int and double; values of
  kinds that are not comparable are never equal and are ordered by their type tag;
  lists and maps compare lexicographically, as \<open>std::vector\<close> and \<open>std::map\<close> do with
  the element comparison.\<close>

fun PropertyValue_equal :: "PropertyValue \<Rightarrow> PropertyValue \<Rightarrow> bool"
  and list_equal :: "PropertyValue list \<Rightarrow> PropertyValue list \<Rightarrow> bool"
  and map_equal :: "(string \<times> PropertyValue) list \<Rightarrow> (string \<times> PropertyValue) list \<Rightarrow> bool"
  where
  "PropertyValue_equal PV_Null PV_Null = True"
| "PropertyValue_equal (PV_Bool a) (PV_Bool b) = (a = b)"
| "PropertyValue_equal (PV_Int a) (PV_Int b) = (a = b)"
| "PropertyValue_equal (PV_Int a) (PV_Double b) = (real_of_int a = b)"
| "PropertyValue_equal (PV_Double a) (PV_Int b) = (a = real_of_int b)"
| "PropertyValue_equal (PV_Double a) (PV_Double b) = (a = b)"
| "PropertyValue_equal (PV_String a) (PV_String b) = (a = b)"
| "PropertyValue_equal (PV_List a) (PV_List b) = list_equal a b"
| "PropertyValue_equal (PV_Map a) (PV_Map b) = map_equal a b"
| "PropertyValue_equal (PV_TemporalData k a) (PV_TemporalData l b) = (k = l \<and> a = b)"
| "PropertyValue_equal a b = False"
| "list_equal [] [] = True"
| "list_equal (x # xs) (y # ys) = (PropertyValue_equal x y \<and> list_equal xs ys)"
| "list_equal xs ys = False"
| "map_equal [] [] = True"
| "map_equal ((k, x) # xs) ((l, y) # ys) =
     (k = l \<and> PropertyValue_equal x y \<and> map_equal xs ys)"
| "map_equal xs ys = False"

function (sequential) PropertyValue_less :: "PropertyValue \<Rightarrow> PropertyValue \<Rightarrow> bool"
  and list_less :: "PropertyValue list \<Rightarrow> PropertyValue list \<Rightarrow> bool"
  and map_less :: "(string \<times> PropertyValue) list \<Rightarrow> (string \<times> PropertyValue) list \<Rightarrow> bool"
  where
  "PropertyValue_less PV_Null PV_Null = False"
| "PropertyValue_less (PV_Bool a) (PV_Bool b) = (\<not> a \<and> b)"
| "PropertyValue_less (PV_Int a) (PV_Int b) = (a < b)"
| "PropertyValue_less (PV_Int a) (PV_Double b) = (real_of_int a < b)"
| "PropertyValue_less (PV_Double a) (PV_Int b) = (a < real_of_int b)"
| "PropertyValue_less (PV_Double a) (PV_Double b) = (a < b)"
| "PropertyValue_less (PV_String a) (PV_String b) = string_less a b"
| "PropertyValue_less (PV_List a) (PV_List b) = list_less a b"
| "PropertyValue_less (PV_Map a) (PV_Map b) = map_less a b"
| "PropertyValue_less (PV_TemporalData k a) (PV_TemporalData l b) =
     (temporal_tag k < temporal_tag l \<or> (k = l \<and> a < b))"
| "PropertyValue_less a b = (type_tag (type_of a) < type_tag (type_of b))"
| "list_less [] [] = False"
| "list_less [] (y # ys) = True"
| "list_less (x # xs) [] = False"
| "list_less (x # xs) (y # ys) =
     (if PropertyValue_less x y then True
      else if PropertyValue_less y x then False
      else list_less xs ys)"
| "map_less [] [] = False"
| "map_less [] (q # ys) = True"
| "map_less (p # xs) [] = False"
| "map_less ((k, x) # xs) ((l, y) # ys) =
     (if string_less k l \<or> (\<not> string_less l k \<and> PropertyValue_less x y) then True
      else if string_less l k \<or> (\<not> string_less k l \<and> PropertyValue_less y x) then False
      else map_less xs ys)"
  by pat_completeness auto
termination
  by (relation "measure (\<lambda>x. case x of
          Inl (a, b) \<Rightarrow> size a + size b
        | Inr (Inl (xs, ys)) \<Rightarrow> size_list size xs + size_list size ys
        | Inr (Inr (xs, ys)) \<Rightarrow>
            size_list (size_prod (\<lambda>k. 0) size) xs +
            size_list (size_prod (\<lambda>k. 0) size) ys)")
     auto

text \<open>The values of the unit test \<open>PropertyValue.Less\<close>
  (\<open>tests/unit/property_value_v2.cpp\<close>), in its order.\<close>

definition Less_data :: "PropertyValue list" where
  "Less_data =
     [PV_Null, PV_Bool True, PV_Int 123, PV_Double 123.5, PV_String ''nandare'',
      PV_List [PV_Bool True, PV_Int 123], PV_Map [(''nandare'', PV_Bool False)]]"

section \<open>Replication client (\<open>storage/v2/replication/replication_client.cpp\<close>)\<close>

subsection \<open>Durability files and recovery steps\<close>

text \<open>
  The structs \<open>durability::WalDurabilityInfo\<close> and
  \<open>durability::SnapshotDurabilityInfo\<close> are declared in a header that is not among the
  sources; the records hold the members \<open>GetRecoverySteps\<close> reads.
\<close>

record WalDurabilityInfo =
  seq_num :: u64
  from_timestamp :: u64
  to_timestamp :: u64
  path :: string

record SnapshotDurabilityInfo =
  snapshot_path :: string
  start_timestamp :: u64

text \<open>The variant \<open>RecoveryStep\<close>.\<close>

datatype RecoveryStep =
    RecoverySnapshot string
  | RecoveryWals "string list"
  | RecoveryCurrentWal u64
  | RecoveryFinalSnapshot u64

text \<open>
  What the client reads of \<open>Storage\<close>: \<open>wal_file\<close> is the sequence number of the WAL
  being written (\<open>storage_->wal_file_->SequenceNumber()\<close>) when there is one,
  \<open>wal_files\<close> is what \<open>durability::GetWalFiles\<close> returns for the WAL directory (the
  finalized WAL files, oldest first; \<open>None\<close> when they cannot be loaded) and
  \<open>snapshot_files\<close> is what \<open>durability::GetSnapshotFiles\<close> returns, in the order
  \<open>std::sort\<close> leaves it.
\<close>

record Storage =
  epoch_id :: string
  last_commit_timestamp :: u64
  epoch_history :: "(string \<times> u64) list"
  wal_file :: "u64 option"
  wal_files :: "WalDurabilityInfo list option"
  snapshot_files :: "SnapshotDurabilityInfo list"

text \<open>
  The two early exits of \<open>GetRecoverySteps\<close> (no finalized WAL, or the newest one is
  not ahead of the replica) share their body: the current WAL if there is one, else
  only the timestamp of the latest snapshot.  The second component of the result
  lists the files given to the file locker.
\<close>

definition current_wal_or_final_snapshot ::
  "u64 option \<Rightarrow> SnapshotDurabilityInfo option
     \<Rightarrow> error + (RecoveryStep list \<times> string list)" where
  "current_wal_or_final_snapshot current_wal_seq_num latest_snapshot =
     (case current_wal_seq_num of
        Some n \<Rightarrow> Inr ([RecoveryCurrentWal n], [])
      | None \<Rightarrow>
          (case latest_snapshot of
             None \<Rightarrow> Inl (CheckFailed ''latest_snapshot'')
           | Some s \<Rightarrow> Inr ([RecoveryFinalSnapshot (start_timestamp s)], [snapshot_path s])))"

definition current_wal_step :: "u64 option \<Rightarrow> RecoveryStep list" where
  "current_wal_step current_wal_seq_num =
     (case current_wal_seq_num of Some n \<Rightarrow> [RecoveryCurrentWal n] | None \<Rightarrow> [])"

text \<open>
  The loop over the reverse iterator \<open>rwal_it\<close> (lines 455 to 492).  The list is the
  range from \<open>rwal_it\<close> to \<open>rend()\<close>, newest first, and \<open>i\<close> is the distance of
  \<open>rwal_it\<close> from \<open>rbegin()\<close>.  \<open>ChainFrom i\<close> is the position of \<open>rwal_it\<close> when
  the chain is built, \<open>NoChain\<close> is both the \<open>break\<close> and the end of the loop, and
  \<open>BeforeBegin\<close> is \<open>--rwal_it\<close> at \<open>rbegin()\<close>.  The subtraction of sequence numbers
  is unsigned and wraps.
\<close>

datatype chain_search = ChainFrom nat | NoChain | BeforeBegin

fun chain_loop :: "u64 \<Rightarrow> u64 \<Rightarrow> nat \<Rightarrow> WalDurabilityInfo list \<Rightarrow> chain_search" where
  "chain_loop replica_commit previous_seq_num i [] = NoChain"
| "chain_loop replica_commit previous_seq_num i (w # rest) =
     (if previous_seq_num - seq_num w > 1 then NoChain
      else if replica_commit \<ge> from_timestamp w \<or> seq_num w = 0 then
        (if replica_commit \<ge> to_timestamp w
         then (if i = 0 then BeforeBegin else ChainFrom (i - 1))
         else ChainFrom i)
      else chain_loop replica_commit (seq_num w) (Suc i) rest)"

text \<open>
  The first loop of the snapshot branch (lines 502 to 514) over \<open>wal_it\<close>: the list is
  the range from \<open>wal_it\<close> to \<open>end()\<close> and \<open>i\<close> the index of \<open>wal_it\<close>.  The result
  is the index \<open>wal_it\<close> is left at.
\<close>

fun first_wal_loop :: "u64 \<Rightarrow> nat \<Rightarrow> WalDurabilityInfo list \<Rightarrow> error + nat" where
  "first_wal_loop snapshot_start i [] = Inr i"
| "first_wal_loop snapshot_start i (w # rest) =
     (if snapshot_start < to_timestamp w then
        (if snapshot_start < from_timestamp w then
           (if i = 0 then Inl (CheckFailed ''Invalid durability files state'')
            else Inr (i - 1))
         else Inr i)
      else first_wal_loop snapshot_start (Suc i) rest)"

definition GetRecoverySteps ::
  "Storage \<Rightarrow> u64 \<Rightarrow> error + (RecoveryStep list \<times> string list)" where
  "GetRecoverySteps storage replica_commit =
     (let current_wal_seq_num = wal_file storage;
          latest_snapshot =
            (if snapshot_files storage \<noteq> [] then Some (last (snapshot_files storage))
             else None)
      in case wal_files storage of
           None \<Rightarrow> Inl (CheckFailed ''Wal files could not be loaded'')
         | Some files \<Rightarrow>
             if files = [] then
               current_wal_or_final_snapshot current_wal_seq_num latest_snapshot
             else if to_timestamp (last files) \<le> replica_commit then
               current_wal_or_final_snapshot current_wal_seq_num latest_snapshot
             else
               (case chain_loop replica_commit (seq_num (last files)) 0 (rev files) of
                  BeforeBegin \<Rightarrow> Inl (Undefined ''--rwal_it at rbegin'')
                | ChainFrom i \<Rightarrow>
                    (let distance_from_first = length files - 1 - i;
                         wal_chain = map path (drop distance_from_first files)
                     in Inr ([RecoveryWals wal_chain] @ current_wal_step current_wal_seq_num,
                             wal_chain))
                | NoChain \<Rightarrow>
                    (case latest_snapshot of
                       None \<Rightarrow> Inl (CheckFailed ''Invalid durability state, missing snapshot'')
                     | Some snapshot \<Rightarrow>
                         (case first_wal_loop (start_timestamp snapshot) 0 files of
                            Inl e \<Rightarrow> Inl e
                          | Inr wal_it \<Rightarrow>
                              (let rest = map path (drop wal_it files);
                                   recovery_wal_files =
                                     (if rest = [] then [path (last files)] else rest)
                               in Inr ([RecoverySnapshot (snapshot_path snapshot),
                                        RecoveryWals recovery_wal_files]
                                         @ current_wal_step current_wal_seq_num,
                                       snapshot_path snapshot # recovery_wal_files))))))"

subsection \<open>What the specification says of the recovery steps\<close>

text \<open>
  A WAL file covers the replica when the replica's commit is not before its first
  timestamp; the very first WAL file (sequence number 0) covers every replica.
\<close>

definition covers :: "u64 \<Rightarrow> WalDurabilityInfo \<Rightarrow> bool" where
  "covers replica_commit w \<longleftrightarrow> from_timestamp w \<le> replica_commit \<or> seq_num w = 0"

text \<open>The timestamps of a WAL file alone: it begins at or before the replica's commit.\<close>

definition begins_by :: "u64 \<Rightarrow> WalDurabilityInfo \<Rightarrow> bool" where
  "begins_by replica_commit w \<longleftrightarrow> from_timestamp w \<le> replica_commit"

text \<open>
  The longest chain of sequential WAL files ending at the newest one: going back from
  the newest, as long as the sequence number drops by at most one.  \<open>sequential\<close>
  works newest first, \<open>sequential_chain\<close> gives the chain oldest first.
\<close>

fun sequential :: "u64 \<Rightarrow> WalDurabilityInfo list \<Rightarrow> WalDurabilityInfo list" where
  "sequential previous_seq_num [] = []"
| "sequential previous_seq_num (w # rest) =
     (if previous_seq_num - seq_num w > 1 then [] else w # sequential (seq_num w) rest)"

definition sequential_chain :: "WalDurabilityInfo list \<Rightarrow> WalDurabilityInfo list" where
  "sequential_chain files = rev (sequential (seq_num (last files)) (rev files))"

text \<open>
  The WAL files a replica at \<open>replica_commit\<close> needs from a chain (given newest
  first): those after the newest file that covers the replica, and that file too
  unless the replica already holds all of it.
\<close>

definition needed_of_chain :: "u64 \<Rightarrow> WalDurabilityInfo list \<Rightarrow> WalDurabilityInfo list" where
  "needed_of_chain replica_commit chain =
     (let newer = takeWhile (\<lambda>w. \<not> covers replica_commit w) chain
      in case dropWhile (\<lambda>w. \<not> covers replica_commit w) chain of
           [] \<Rightarrow> []
         | w # older \<Rightarrow>
             if to_timestamp w \<le> replica_commit then rev newer else w # rev newer)"

definition needed_wals :: "u64 \<Rightarrow> WalDurabilityInfo list \<Rightarrow> WalDurabilityInfo list" where
  "needed_wals replica_commit files =
     needed_of_chain replica_commit (sequential (seq_num (last files)) (rev files))"

text \<open>
  The WAL files sent after a snapshot: from the first file that ends after the
  snapshot's start on, with the file before it when that first file also begins after
  the snapshot's start; the newest file alone when no file ends after the snapshot's
  start.  The durability files are in an invalid state when the first file that ends
  after the snapshot also begins after it and no file precedes it.
\<close>

definition ends_by :: "u64 \<Rightarrow> WalDurabilityInfo \<Rightarrow> bool" where
  "ends_by snapshot_start w \<longleftrightarrow> to_timestamp w \<le> snapshot_start"

definition wals_after_snapshot ::
  "u64 \<Rightarrow> WalDurabilityInfo list \<Rightarrow> WalDurabilityInfo list" where
  "wals_after_snapshot snapshot_start files =
     (let earlier = takeWhile (ends_by snapshot_start) files
      in case dropWhile (ends_by snapshot_start) files of
           [] \<Rightarrow> [last files]
         | w # later \<Rightarrow>
             if snapshot_start < from_timestamp w then last earlier # w # later
             else w # later)"

definition invalid_durability_state :: "u64 \<Rightarrow> WalDurabilityInfo list \<Rightarrow> bool" where
  "invalid_durability_state snapshot_start files =
     (case dropWhile (ends_by snapshot_start) files of
        [] \<Rightarrow> False
      | w # later \<Rightarrow>
          snapshot_start < from_timestamp w \<and> takeWhile (ends_by snapshot_start) files = [])"

text \<open>The steps alone, without the locked files.\<close>

definition steps_of ::
  "error + (RecoveryStep list \<times> string list) \<Rightarrow> error + RecoveryStep list" where
  "steps_of r = map_sum id fst r"

text \<open>The finalized WAL files whose \<open>to_timestamp\<close> is greater than the snapshot's
  \<open>start_timestamp\<close>.\<close>

definition wals_ending_after ::
  "u64 \<Rightarrow> WalDurabilityInfo list \<Rightarrow> WalDurabilityInfo list" where
  "wals_ending_after snapshot_start files =
     filter (\<lambda>w. snapshot_start < to_timestamp w) files"

subsection \<open>Scenarios\<close>

text \<open>
  A main instance with the given finalized WAL files and snapshots and no WAL being
  written.
\<close>

definition main_instance ::
  "WalDurabilityInfo list \<Rightarrow> SnapshotDurabilityInfo list \<Rightarrow> Storage" where
  "main_instance files snapshots =
     \<lparr>epoch_id = ''main'', last_commit_timestamp = 75, epoch_history = [],
      wal_file = None, wal_files = Some files, snapshot_files = snapshots\<rparr>"

text \<open>
  WAL files with sequence numbers 4 to 7 that begin at the timestamps 40, 50, 60 and
  70: in \<open>long_wals\<close> each holds several commits, in \<open>short_wals\<close> a single one.
\<close>

definition long_wals :: "WalDurabilityInfo list" where
  "long_wals =
     [\<lparr>seq_num = 4, from_timestamp = 40, to_timestamp = 45, path = ''wal4''\<rparr>,
      \<lparr>seq_num = 5, from_timestamp = 50, to_timestamp = 55, path = ''wal5''\<rparr>,
      \<lparr>seq_num = 6, from_timestamp = 60, to_timestamp = 65, path = ''wal6''\<rparr>,
      \<lparr>seq_num = 7, from_timestamp = 70, to_timestamp = 75, path = ''wal7''\<rparr>]"

definition short_wals :: "WalDurabilityInfo list" where
  "short_wals =
     [\<lparr>seq_num = 4, from_timestamp = 40, to_timestamp = 40, path = ''wal4''\<rparr>,
      \<lparr>seq_num = 5, from_timestamp = 50, to_timestamp = 50, path = ''wal5''\<rparr>,
      \<lparr>seq_num = 6, from_timestamp = 60, to_timestamp = 60, path = ''wal6''\<rparr>,
      \<lparr>seq_num = 7, from_timestamp = 70, to_timestamp = 70, path = ''wal7''\<rparr>]"

text \<open>
  A snapshot taken at timestamp 5, with the WAL files 6 and 7 after it: in
  \<open>wals_6_7\<close> WAL 6 begins before the snapshot, in \<open>late_wals_6_7\<close> it begins after
  it, and in \<open>wals_5_6_7\<close> it begins after it and WAL 5, which ends before the
  snapshot, is still there.  In \<open>first_wals\<close> the WAL files are the first three the
  main instance wrote, with sequence numbers from 0.
\<close>

definition snapshot_5 :: SnapshotDurabilityInfo where
  "snapshot_5 = \<lparr>snapshot_path = ''snapshot5'', start_timestamp = 5\<rparr>"

definition wals_6_7 :: "WalDurabilityInfo list" where
  "wals_6_7 =
     [\<lparr>seq_num = 6, from_timestamp = 4, to_timestamp = 6, path = ''wal6''\<rparr>,
      \<lparr>seq_num = 7, from_timestamp = 7, to_timestamp = 7, path = ''wal7''\<rparr>]"

definition late_wals_6_7 :: "WalDurabilityInfo list" where
  "late_wals_6_7 =
     [\<lparr>seq_num = 6, from_timestamp = 6, to_timestamp = 6, path = ''wal6''\<rparr>,
      \<lparr>seq_num = 7, from_timestamp = 7, to_timestamp = 7, path = ''wal7''\<rparr>]"

definition first_wals :: "WalDurabilityInfo list" where
  "first_wals =
     [\<lparr>seq_num = 0, from_timestamp = 1, to_timestamp = 5, path = ''wal0''\<rparr>,
      \<lparr>seq_num = 1, from_timestamp = 6, to_timestamp = 8, path = ''wal1''\<rparr>,
      \<lparr>seq_num = 2, from_timestamp = 9, to_timestamp = 10, path = ''wal2''\<rparr>]"

definition wals_5_6_7 :: "WalDurabilityInfo list" where
  "wals_5_6_7 =
     [\<lparr>seq_num = 5, from_timestamp = 3, to_timestamp = 4, path = ''wal5''\<rparr>,
      \<lparr>seq_num = 6, from_timestamp = 6, to_timestamp = 6, path = ''wal6''\<rparr>,
      \<lparr>seq_num = 7, from_timestamp = 7, to_timestamp = 7, path = ''wal7''\<rparr>]"

subsection \<open>The client and its state machine\<close>

text \<open>
  The enums \<open>replication::ReplicaState\<close> and \<open>replication::ReplicationMode\<close> are
  declared in a header that is not among the sources; these are the values the client
  uses.
\<close>

datatype ReplicaState = READY | REPLICATING | RECOVERY | INVALID

datatype ReplicationMode = SYNC | ASYNC

text \<open>
  Responses of the replica: \<open>HeartbeatRes\<close>, and one record for \<open>AppendDeltasRes\<close>,
  \<open>SnapshotRes\<close>, \<open>WalFilesRes\<close>, \<open>CurrentWalRes\<close> and \<open>OnlySnapshotRes\<close> (the
  client reads \<open>success\<close> only where the response has it).
\<close>

record HeartbeatRes =
  res_epoch_id :: string
  res_current_commit_timestamp :: u64

record Response =
  success :: bool
  current_commit_timestamp :: u64

record ReplicaStream =
  previous_commit_timestamp :: u64
  current_seq_num :: u64
  stream_epoch_id :: string

record TimeoutDispatcher =
  active :: bool
  finished :: bool

text \<open>
  The closures the client gives to \<open>thread_pool_\<close>: the reconnect of
  \<open>HandleRpcFailure\<close>, \<open>RecoverReplica\<close> with an argument captured by value
  (line 92), \<open>RecoverReplica\<close> with the commit timestamp of \<open>response\<close> captured by
  reference (line 265), the finalize of an \<open>ASYNC\<close> replica, the finalize of a
  \<open>SYNC\<close> replica with a timeout (which then wakes the main thread), and the reset of
  the timeout dispatcher.
\<close>

datatype Task =
    ReconnectTask
  | RecoverReplicaTask u64
  | RecoverReplicaOfResponseTask
  | FinalizeTask
  | FinalizeAndNotifyTask
  | ResetTimeoutDispatcherTask

record ReplicationClient =
  name :: string
  mode :: ReplicationMode
  replica_state :: ReplicaState
  replica_stream :: "ReplicaStream option"
  timeout :: "real option"
  timeout_dispatcher :: "TimeoutDispatcher option"
  thread_pool :: "Task list"

text \<open>
  What a call meets outside the client: the storage as the call reads it, the answer
  to the heartbeat, whether the stream of \<open>AppendDeltasRpc\<close> opens, the answer
  \<open>replica_stream_->Finalize()\<close> gets, whether the timeout wakes the main thread
  before the finalize task has ended, the answer to the transfer of the i-th
  recovery step, and what the task of line 265 finds when it runs and reads
  \<open>response.current_commit_timestamp\<close> through its reference to a local variable
  whose block has been left: no value is promised, so the world gives one.  An
  \<open>Inl RpcFailed\<close> is a thrown \<open>rpc::RpcFailedException\<close>.
\<close>

record World =
  world_storage :: Storage
  heartbeat :: "error + HeartbeatRes"
  stream_opens :: bool
  finalize_response :: "error + Response"
  timed_out :: bool
  transfer :: "nat \<Rightarrow> error + Response"
  dangling_response :: u64

definition HandleRpcFailure :: "ReplicationClient \<Rightarrow> ReplicationClient" where
  "HandleRpcFailure this = this\<lparr>thread_pool := thread_pool this @ [ReconnectTask]\<rparr>"

text \<open>
  \<open>InitializeClient\<close>.  The constant \<open>kTimestampInitialId\<close> is defined in a header
  that is not among the sources and is a parameter here.  \<open>std::find_if\<close> over
  \<open>crbegin()\<close> to \<open>crend()\<close> finds the last entry of the epoch history with the
  replica's epoch.
\<close>

definition branching_point :: "u64 \<Rightarrow> Storage \<Rightarrow> HeartbeatRes \<Rightarrow> u64 option" where
  "branching_point kTimestampInitialId st response =
     (if res_epoch_id response \<noteq> epoch_id st \<and>
         res_current_commit_timestamp response \<noteq> kTimestampInitialId then
        (case find (\<lambda>epoch_info. fst epoch_info = res_epoch_id response)
                (rev (epoch_history st)) of
           None \<Rightarrow> Some 0
         | Some epoch_info \<Rightarrow>
             if snd epoch_info \<noteq> res_current_commit_timestamp response
             then Some (snd epoch_info) else None)
      else None)"

definition InitializeClient ::
  "u64 \<Rightarrow> World \<Rightarrow> ReplicationClient \<Rightarrow> error + ReplicationClient" where
  "InitializeClient kTimestampInitialId w this =
     (case heartbeat w of
        Inl e \<Rightarrow> Inl e
      | Inr response \<Rightarrow>
          if branching_point kTimestampInitialId (world_storage w) response \<noteq> None then Inr this
          else if res_current_commit_timestamp response = last_commit_timestamp (world_storage w)
          then Inr (this\<lparr>replica_state := READY\<rparr>)
          else Inr (this\<lparr>replica_state := RECOVERY,
                         thread_pool := thread_pool this @
                           [RecoverReplicaTask (res_current_commit_timestamp response)]\<rparr>))"

definition TryInitializeClient ::
  "u64 \<Rightarrow> World \<Rightarrow> ReplicationClient \<Rightarrow> error + ReplicationClient" where
  "TryInitializeClient kTimestampInitialId w this =
     (case InitializeClient kTimestampInitialId w this of
        Inl RpcFailed \<Rightarrow> Inr (this\<lparr>replica_state := INVALID\<rparr>)
      | Inl e \<Rightarrow> Inl e
      | Inr this' \<Rightarrow> Inr this')"

definition StartTransactionReplication ::
  "World \<Rightarrow> u64 \<Rightarrow> ReplicationClient \<Rightarrow> error + ReplicationClient" where
  "StartTransactionReplication w current_wal_seq_num this =
     (case replica_state this of
        RECOVERY \<Rightarrow> Inr this
      | REPLICATING \<Rightarrow> Inr (this\<lparr>replica_state := RECOVERY\<rparr>)
      | INVALID \<Rightarrow> Inr (HandleRpcFailure this)
      | READY \<Rightarrow>
          if replica_stream this \<noteq> None then Inl (CheckFailed ''!replica_stream_'')
          else if stream_opens w then
            Inr (this\<lparr>replica_stream :=
                        Some \<lparr>previous_commit_timestamp = last_commit_timestamp (world_storage w),
                              current_seq_num = current_wal_seq_num,
                              stream_epoch_id = epoch_id (world_storage w)\<rparr>,
                      replica_state := REPLICATING\<rparr>)
          else Inr (HandleRpcFailure (this\<lparr>replica_state := INVALID\<rparr>)))"

definition IfStreamingTransaction ::
  "(ReplicaStream \<Rightarrow> error + ReplicaStream) \<Rightarrow> ReplicationClient
     \<Rightarrow> error + ReplicationClient" where
  "IfStreamingTransaction callback this =
     (if replica_state this \<noteq> REPLICATING then Inr this
      else case replica_stream this of
             None \<Rightarrow> Inl (Undefined ''*replica_stream_ without a stream'')
           | Some stream \<Rightarrow>
               (case callback stream of
                  Inr stream' \<Rightarrow> Inr (this\<lparr>replica_stream := Some stream'\<rparr>)
                | Inl RpcFailed \<Rightarrow> Inr (HandleRpcFailure (this\<lparr>replica_state := INVALID\<rparr>))
                | Inl e \<Rightarrow> Inl e))"

text \<open>
  \<open>FinalizeTransactionReplicationInternal\<close>.  The recovery task captures the local
  \<open>response\<close> by reference (\<open>[&, this]\<close>) and reads it only when it runs, after the
  block of \<open>response\<close> has been left: the task in the pool carries no value.
\<close>

definition FinalizeTransactionReplicationInternal ::
  "World \<Rightarrow> ReplicationClient \<Rightarrow> error + ReplicationClient" where
  "FinalizeTransactionReplicationInternal w this =
     (if replica_stream this = None
      then Inl (CheckFailed ''Missing stream for transaction deltas'')
      else case finalize_response w of
             Inr response \<Rightarrow>
               (let this1 = this\<lparr>replica_stream := None\<rparr>
                in if \<not> success response \<or> replica_state this1 = RECOVERY then
                     Inr (this1\<lparr>replica_state := RECOVERY,
                                thread_pool := thread_pool this1 @
                                  [RecoverReplicaOfResponseTask]\<rparr>)
                   else Inr (this1\<lparr>replica_state := READY\<rparr>))
           | Inl RpcFailed \<Rightarrow>
               Inr (HandleRpcFailure (this\<lparr>replica_stream := None, replica_state := INVALID\<rparr>))
           | Inl e \<Rightarrow> Inl e)"

text \<open>
  \<open>FinalizeTransactionReplication\<close>.  In the branch with a timeout the main thread
  starts the finalize task and the timeout task and sleeps until one of them clears
  \<open>active\<close>.  \<open>timed_out\<close> says which: when the timeout wins, the finalize task has
  not run yet and stays in the pool; otherwise it has run to its end.  What the main
  thread does after it wakes (from line 241) is \<open>after_wakeup\<close>.
\<close>

definition after_wakeup :: "ReplicationClient \<Rightarrow> ReplicationClient" where
  "after_wakeup this =
     (if replica_state this = REPLICATING then
        this\<lparr>mode := ASYNC, timeout := None,
             thread_pool := thread_pool this @ [ResetTimeoutDispatcherTask]\<rparr>
      else this)"

definition FinalizeTransactionReplication ::
  "World \<Rightarrow> ReplicationClient \<Rightarrow> error + ReplicationClient" where
  "FinalizeTransactionReplication w this =
     (if replica_state this \<noteq> REPLICATING then Inr this
      else if mode this = ASYNC then
        Inr (this\<lparr>thread_pool := thread_pool this @ [FinalizeTask]\<rparr>)
      else if timeout this \<noteq> None then
        (if mode this \<noteq> SYNC then Inl (CheckFailed ''Only SYNC replica can have a timeout.'')
         else case timeout_dispatcher this of
                None \<Rightarrow> Inl (CheckFailed ''Timeout thread is missing'')
              | Some dispatcher \<Rightarrow>
                  if timed_out w then
                    Inr (after_wakeup
                          (this\<lparr>thread_pool := thread_pool this @ [FinalizeAndNotifyTask],
                                timeout_dispatcher := Some \<lparr>active = False, finished = True\<rparr>\<rparr>))
                  else
                    (case FinalizeTransactionReplicationInternal w this of
                       Inl e \<Rightarrow> Inl e
                     | Inr this1 \<Rightarrow>
                         Inr (after_wakeup
                               (this1\<lparr>timeout_dispatcher :=
                                         Some \<lparr>active = False, finished = False\<rparr>\<rparr>))))
      else FinalizeTransactionReplicationInternal w this)"

text \<open>
  \<open>RecoverReplica\<close>: the body of the visitor for the i-th step, with the \<open>catch\<close>
  around it, then the steps of one round of the \<open>while (true)\<close> loop in order.  The
  state is the client and \<open>replica_commit\<close>.
\<close>

definition rpc_failed :: "ReplicationClient \<times> u64 \<Rightarrow> ReplicationClient \<times> u64" where
  "rpc_failed s = (HandleRpcFailure ((fst s)\<lparr>replica_state := INVALID\<rparr>), snd s)"

definition recovery_step ::
  "World \<Rightarrow> nat \<Rightarrow> RecoveryStep \<Rightarrow> ReplicationClient \<times> u64
     \<Rightarrow> error + (ReplicationClient \<times> u64)" where
  "recovery_step w i step s =
     (case step of
        RecoverySnapshot arg \<Rightarrow>
          (case transfer w i of
             Inr response \<Rightarrow> Inr (fst s, current_commit_timestamp response)
           | Inl RpcFailed \<Rightarrow> Inr (rpc_failed s)
           | Inl e \<Rightarrow> Inl e)
      | RecoveryWals arg \<Rightarrow>
          if arg = [] then Inl (CheckFailed ''Wal files list is empty!'')
          else (case transfer w i of
                  Inr response \<Rightarrow> Inr (fst s, current_commit_timestamp response)
                | Inl RpcFailed \<Rightarrow> Inr (rpc_failed s)
                | Inl e \<Rightarrow> Inl e)
      | RecoveryCurrentWal arg \<Rightarrow>
          if wal_file (world_storage w) = Some arg then
            (case transfer w i of
               Inr response \<Rightarrow> Inr (fst s, current_commit_timestamp response)
             | Inl RpcFailed \<Rightarrow> Inr (rpc_failed s)
             | Inl e \<Rightarrow> Inl e)
          else Inr s
      | RecoveryFinalSnapshot arg \<Rightarrow>
          (case transfer w i of
             Inr response \<Rightarrow>
               if success response then Inr (fst s, current_commit_timestamp response)
               else Inr s
           | Inl RpcFailed \<Rightarrow> Inr (rpc_failed s)
           | Inl e \<Rightarrow> Inl e))"

fun recovery_steps ::
  "World \<Rightarrow> nat \<Rightarrow> RecoveryStep list \<Rightarrow> ReplicationClient \<times> u64
     \<Rightarrow> error + (ReplicationClient \<times> u64)" where
  "recovery_steps w i [] s = Inr s"
| "recovery_steps w i (step # steps) s =
     (case recovery_step w i step s of
        Inl e \<Rightarrow> Inl e
      | Inr s' \<Rightarrow> recovery_steps w (Suc i) steps s')"

text \<open>
  One round of the loop of \<open>RecoverReplica\<close>.  The loop has no bound: a round that
  does not end in \<open>READY\<close> puts the task back into the pool with the replica's new
  commit timestamp, and the next round, which may meet another world, is the next
  run of that task.
\<close>

definition RecoverReplica ::
  "World \<Rightarrow> u64 \<Rightarrow> ReplicationClient \<Rightarrow> error + ReplicationClient" where
  "RecoverReplica w replica_commit this =
     (case GetRecoverySteps (world_storage w) replica_commit of
        Inl e \<Rightarrow> Inl e
      | Inr (steps, locked) \<Rightarrow>
          (case recovery_steps w 0 steps (this, replica_commit) of
             Inl e \<Rightarrow> Inl e
           | Inr (this', replica_commit') \<Rightarrow>
               if last_commit_timestamp (world_storage w) = replica_commit'
               then Inr (this'\<lparr>replica_state := READY\<rparr>)
               else Inr (this'\<lparr>thread_pool :=
                                  RecoverReplicaTask replica_commit' # thread_pool this'\<rparr>)))"

text \<open>A task of the pool runs.\<close>

definition run_task ::
  "u64 \<Rightarrow> World \<Rightarrow> Task \<Rightarrow> ReplicationClient \<Rightarrow> error + ReplicationClient" where
  "run_task kTimestampInitialId w task this =
     (case task of
        ReconnectTask \<Rightarrow> TryInitializeClient kTimestampInitialId w this
      | RecoverReplicaTask replica_commit \<Rightarrow> RecoverReplica w replica_commit this
      | RecoverReplicaOfResponseTask \<Rightarrow> RecoverReplica w (dangling_response w) this
      | FinalizeTask \<Rightarrow> FinalizeTransactionReplicationInternal w this
      | FinalizeAndNotifyTask \<Rightarrow>
          (case FinalizeTransactionReplicationInternal w this of
             Inl e \<Rightarrow> Inl e
           | Inr this1 \<Rightarrow>
               (case timeout_dispatcher this1 of
                  None \<Rightarrow> Inl (Undefined ''timeout_dispatcher_ without a dispatcher'')
                | Some dispatcher \<Rightarrow>
                    Inr (this1\<lparr>timeout_dispatcher := Some (dispatcher\<lparr>active := False\<rparr>)\<rparr>)))
      | ResetTimeoutDispatcherTask \<Rightarrow> Inr (this\<lparr>timeout_dispatcher := None\<rparr>))"

text \<open>
  The life of a client after its construction: calls of the storage's commit path
  (\<open>StartTransactionReplication\<close>, \<open>IfStreamingTransaction\<close>,
  \<open>FinalizeTransactionReplication\<close>) and runs of pool tasks, each in its own world.
  \<open>RunTask i\<close> takes the i-th task out of the pool and runs it.
\<close>

datatype Event =
    StartTransaction u64
  | IfStreaming "ReplicaStream \<Rightarrow> error + ReplicaStream"
  | FinalizeTransaction
  | RunTask nat

definition client_step ::
  "u64 \<Rightarrow> World \<Rightarrow> Event \<Rightarrow> ReplicationClient \<Rightarrow> error + ReplicationClient" where
  "client_step kTimestampInitialId w event this =
     (case event of
        StartTransaction current_wal_seq_num \<Rightarrow>
          StartTransactionReplication w current_wal_seq_num this
      | IfStreaming callback \<Rightarrow> IfStreamingTransaction callback this
      | FinalizeTransaction \<Rightarrow> FinalizeTransactionReplication w this
      | RunTask i \<Rightarrow>
          if i < length (thread_pool this) then
            run_task kTimestampInitialId w (thread_pool this ! i)
              (this\<lparr>thread_pool := take i (thread_pool this) @ drop (Suc i) (thread_pool this)\<rparr>)
          else Inr this)"

fun client_run ::
  "u64 \<Rightarrow> (World \<times> Event) list \<Rightarrow> ReplicationClient \<Rightarrow> error + ReplicationClient" where
  "client_run kTimestampInitialId [] this = Inr this"
| "client_run kTimestampInitialId ((w, event) # rest) this =
     (case client_step kTimestampInitialId w event this of
        Inl e \<Rightarrow> Inl e
      | Inr this' \<Rightarrow> client_run kTimestampInitialId rest this')"

subsection \<open>What the specification says of a branching point\<close>


subsection \<open>Scenarios of the client\<close>

text \<open>
  A \<open>SYNC\<close> client with a timeout of 0.2 seconds in state \<open>READY\<close>, the same
  client in state \<open>INVALID\<close>, and while it replicates a transaction.
\<close>

definition ready_client :: ReplicationClient where
  "ready_client =
     \<lparr>name = ''replica'', mode = SYNC, replica_state = READY, replica_stream = None,
      timeout = Some 0.2, timeout_dispatcher = Some \<lparr>active = False, finished = True\<rparr>,
      thread_pool = []\<rparr>"

definition invalid_client :: ReplicationClient where
  "invalid_client = ready_client\<lparr>replica_state := INVALID\<rparr>"

definition replicating_client :: ReplicationClient where
  "replicating_client =
     ready_client\<lparr>replica_state := REPLICATING,
                  replica_stream := Some \<lparr>previous_commit_timestamp = 75, current_seq_num = 8,
                                          stream_epoch_id = ''main''\<rparr>\<rparr>"

text \<open>
  A world in which every call to the replica succeeds and the replica is level with
  the main instance; one in which the replica answers the heartbeat from commit 50;
  one in which no stream to the replica opens; one in which the
  finalize task does not end before the timeout; and one in which the replica answers
  the heartbeat with an epoch the main instance does not know and with the given
  commit timestamp.
\<close>

definition calm_world :: World where
  "calm_world =
     \<lparr>world_storage = main_instance long_wals [],
      heartbeat = Inr \<lparr>res_epoch_id = ''main'', res_current_commit_timestamp = 75\<rparr>,
      stream_opens = True,
      finalize_response = Inr \<lparr>success = True, current_commit_timestamp = 75\<rparr>,
      timed_out = False,
      transfer = (\<lambda>i. Inr \<lparr>success = True, current_commit_timestamp = 75\<rparr>),
      dangling_response = 0\<rparr>"

definition lagging_world :: World where
  "lagging_world =
     calm_world\<lparr>heartbeat :=
       Inr \<lparr>res_epoch_id = ''main'', res_current_commit_timestamp = 50\<rparr>\<rparr>"

definition unreachable_world :: World where
  "unreachable_world = calm_world\<lparr>stream_opens := False\<rparr>"

definition slow_world :: World where
  "slow_world = calm_world\<lparr>timed_out := True\<rparr>"





text \<open>
  What may follow a timeout: the late finalize task ends, the timeout dispatcher is
  reset, and the next transaction is replicated.
\<close>

definition after_timeout :: "(World \<times> Event) list" where
  "after_timeout =
     [(calm_world, RunTask 0), (calm_world, RunTask 0), (calm_world, StartTransaction 9),
      (calm_world, IfStreaming Inr), (calm_world, FinalizeTransaction), (calm_world, RunTask 0)]"


section \<open>Tagged back pointer: the tag round-trips\<close>

lemma aligned8_low2: "aligned8 p \<Longrightarrow> p AND 3 = 0"
proof -
  assume "aligned8 p"
  then have a: "p AND 7 = 0" by (simp add: aligned8_def)
  have "p AND 3 = (p AND 7) AND 3" by (simp add: and.assoc)
  then show ?thesis using a by simp
qed

lemma clear_low2:
  assumes "(p::u64) AND 3 = 0" shows "p AND NOT 3 = p"
proof -
  have "p = p AND (3 OR NOT 3)" by simp
  also have "\<dots> = (p AND 3) OR (p AND NOT 3)" by (simp only: bit.conj_disj_distrib)
  finally show ?thesis using assms by simp
qed

lemma untag:
  assumes "(p::u64) AND 3 = 0" and "t AND NOT 3 = 0"
  shows "(p OR t) AND NOT 3 = p"
proof -
  have "(p OR t) AND NOT 3 = (p AND NOT 3) OR (t AND NOT 3)"
    by (simp only: bit.conj_disj_distrib2)
  also have "\<dots> = p"
    by (simp only: assms(2) clear_low2 [OF assms(1)] or.right_neutral)
  finally show ?thesis .
qed

lemma tagged:
  assumes "(p::u64) AND 3 = 0" and "t AND 3 = t"
  shows "(p OR t) AND 3 = t"
proof -
  have "(p OR t) AND 3 = (p AND 3) OR (t AND 3)"
    by (simp only: bit.conj_disj_distrib2)
  then show ?thesis using assms by simp
qed

lemma Set_Delta_roundtrip:
  assumes "aligned8 p"
  shows "\<exists>s. Set_Delta p this = Inr s \<and> GetType s = Inr DELTA \<and> GetDelta s = Inr p"
proof -
  have z: "p AND 3 = 0" by (rule aligned8_low2 [OF assms])
  have t: "(p OR 1) AND 3 = 1" by (rule tagged [OF z]) simp
  have u: "(p OR 1) AND NOT 3 = p" by (rule untag [OF z]) simp
  show ?thesis
    using z t u by (simp add: Set_Delta_def GetType_def GetDelta_def kMask_def kDelta_def)
qed

lemma Set_Vertex_roundtrip:
  assumes "aligned8 p"
  shows "\<exists>s. Set_Vertex p this = Inr s \<and> GetType s = Inr VERTEX \<and> GetVertex s = Inr p"
proof -
  have z: "p AND 3 = 0" by (rule aligned8_low2 [OF assms])
  have t: "(p OR 2) AND 3 = 2" by (rule tagged [OF z]) simp
  have u: "(p OR 2) AND NOT 3 = p" by (rule untag [OF z]) simp
  show ?thesis
    using z t u
    by (simp add: Set_Vertex_def GetType_def GetVertex_def kMask_def kDelta_def kVertex_def)
qed

lemma Set_Edge_roundtrip:
  assumes "aligned8 p"
  shows "\<exists>s. Set_Edge p this = Inr s \<and> GetType s = Inr EDGE \<and> GetEdge s = Inr p"
proof -
  have z: "p AND 3 = 0" by (rule aligned8_low2 [OF assms])
  have t: "(p OR 3) AND 3 = 3" by (rule tagged [OF z]) simp
  have u: "(p OR 3) AND NOT 3 = p" by (rule untag [OF z]) simp
  show ?thesis
    using z t u
    by (simp add: Set_Edge_def GetType_def GetEdge_def kMask_def kDelta_def kVertex_def
        kEdge_def)
qed

text \<open>
  Claim C7.  For every 8-byte-aligned pointer \<open>p\<close> to a Delta, a Vertex or an Edge,
  the matching \<open>Set\<close> overload succeeds, and on the pointer it leaves \<open>GetType\<close>
  returns the matching type and the matching getter returns exactly \<open>p\<close>: the tag
  in the two low bits round-trips and is masked off before the pointer is produced.
\<close>

theorem PreviousPtr_tag_roundtrip:
  assumes "aligned8 p"
  shows "(\<exists>s. Set_Delta p this = Inr s \<and> GetType s = Inr DELTA \<and> GetDelta s = Inr p) \<and>
         (\<exists>s. Set_Vertex p this = Inr s \<and> GetType s = Inr VERTEX \<and> GetVertex s = Inr p) \<and>
         (\<exists>s. Set_Edge p this = Inr s \<and> GetType s = Inr EDGE \<and> GetEdge s = Inr p)"
  using Set_Delta_roundtrip [OF assms] Set_Vertex_roundtrip [OF assms]
    Set_Edge_roundtrip [OF assms]
  by blast

theorem PreviousPtr_tag_roundtrip_witness:
  "aligned8 4096 \<and>
   (\<exists>s. Set_Delta 4096 \<lparr>ptr_storage = 0\<rparr> = Inr s \<and> GetType s = Inr DELTA \<and>
        GetDelta s = Inr 4096) \<and>
   (\<exists>s. Set_Vertex 4096 \<lparr>ptr_storage = 0\<rparr> = Inr s \<and> GetType s = Inr VERTEX \<and>
        GetVertex s = Inr 4096) \<and>
   (\<exists>s. Set_Edge 4096 \<lparr>ptr_storage = 0\<rparr> = Inr s \<and> GetType s = Inr EDGE \<and>
        GetEdge s = Inr 4096)"
proof -
  have h: "aligned8 4096" by (simp add: aligned8_def)
  show ?thesis
    using h PreviousPtr_tag_roundtrip [OF h, of "\<lparr>ptr_storage = 0\<rparr>"] by blast
qed

section \<open>Deltas: the move constructor\<close>

lemma constructors_consistent:
  "consistent (Delta_DeleteObject ts cid)"
  "consistent (Delta_RecreateObject ts cid)"
  "consistent (Delta_AddLabel label ts cid)"
  "consistent (Delta_RemoveLabel label ts cid)"
  "consistent (Delta_SetProperty key val ts cid)"
  "consistent (Delta_AddInEdge edge_type vertex edge ts cid)"
  "consistent (Delta_AddOutEdge edge_type vertex edge ts cid)"
  "consistent (Delta_RemoveInEdge edge_type vertex edge ts cid)"
  "consistent (Delta_RemoveOutEdge edge_type vertex edge ts cid)"
  by (simp_all add: consistent_def Delta_DeleteObject_def Delta_RecreateObject_def
      Delta_AddLabel_def Delta_RemoveLabel_def Delta_SetProperty_def Delta_AddInEdge_def
      Delta_AddOutEdge_def Delta_RemoveInEdge_def Delta_RemoveOutEdge_def)

lemma Delta_move_members_ok:
  "consistent other \<Longrightarrow>
   \<exists>mine theirs. Delta_move_members other = Inr (mine, theirs) \<and>
     (action other = SET_PROPERTY \<longrightarrow>
        (\<exists>key v. payload other = Property key (Live v) \<and>
           mine = Property key (Live v) \<and> theirs = Property key (Live PV_Null)))"
  by (cases "action other"; cases "payload other")
     (auto simp: consistent_def Delta_move_members_def PropertyValue_move_def
           split: value_slot.splits)

lemma Delta_move_consistent:
  "consistent other \<Longrightarrow> Delta_move other = Inr (this, other') \<Longrightarrow>
     consistent this \<and> consistent other' \<and> action this = action other \<and>
     (action other \<noteq> DELETE_OBJECT \<and> action other \<noteq> RECREATE_OBJECT \<longrightarrow>
        payload this = payload other)"
  by (cases "action other"; cases "payload other")
     (auto simp: consistent_def Delta_move_def Delta_move_members_def
           PropertyValue_move_def DestroyValue_def
           split: value_slot.splits sum.splits prod.splits)

text \<open>
  Claim C10.  After the move constructor of \<open>Delta\<close> has run, the action of the
  moved-from delta is \<open>DELETE_OBJECT\<close>; when its action was \<open>SET_PROPERTY\<close> the
  property value in its union has been destroyed (once, while the action still said
  \<open>SET_PROPERTY\<close>), and the destructor of the moved-from delta then leaves it as it
  is: it does not destroy the property value a second time.
\<close>

theorem Delta_move_resets_source:
  assumes "consistent other"
  shows "\<exists>this other'. Delta_move other = Inr (this, other') \<and>
           action other' = DELETE_OBJECT \<and>
           (action other = SET_PROPERTY \<longrightarrow> value_destroyed other') \<and>
           Delta_destructor other' = Inr other'"
proof -
  from Delta_move_members_ok [OF assms] obtain mine theirs where
    m: "Delta_move_members other = Inr (mine, theirs)" and
    p: "action other = SET_PROPERTY \<longrightarrow>
          (\<exists>key v. payload other = Property key (Live v) \<and>
             mine = Property key (Live v) \<and> theirs = Property key (Live PV_Null))"
    by blast
  show ?thesis
  proof (cases "action other = SET_PROPERTY")
    case True
    with p obtain key where "theirs = Property key (Live PV_Null)" by blast
    with True m show ?thesis
      by (simp add: Delta_move_def DestroyValue_def Delta_destructor_def value_destroyed_def)
  next
    case False
    with m show ?thesis
      by (cases "action other")
         (simp_all add: Delta_move_def DestroyValue_def Delta_destructor_def)
  qed
qed

theorem Delta_move_resets_source_witness:
  "consistent (Delta_SetProperty 7 (PV_String ''nandare'') 4096 0) \<and>
   action (Delta_SetProperty 7 (PV_String ''nandare'') 4096 0) = SET_PROPERTY \<and>
   (\<exists>this other'.
      Delta_move (Delta_SetProperty 7 (PV_String ''nandare'') 4096 0) = Inr (this, other') \<and>
      action other' = DELETE_OBJECT \<and> value_destroyed other' \<and>
      Delta_destructor other' = Inr other')"
proof -
  have c: "consistent (Delta_SetProperty 7 (PV_String ''nandare'') 4096 0)"
    by (simp add: consistent_def Delta_SetProperty_def)
  have a: "action (Delta_SetProperty 7 (PV_String ''nandare'') 4096 0) = SET_PROPERTY"
    by (simp add: Delta_SetProperty_def)
  show ?thesis
    using c a Delta_move_resets_source [OF c] by blast
qed

section \<open>Property values: typed accessors and comparison\<close>

lemma not_comparable:
  "\<not> AreComparableTypes (type_of a) (type_of b) \<Longrightarrow>
     \<not> PropertyValue_equal a b \<and>
     PropertyValue_less a b = (type_tag (type_of a) < type_tag (type_of b))"
  by (cases a; cases b) (simp_all add: AreComparableTypes_def)

lemma Less_data_sorted: "sorted_wrt PropertyValue_less Less_data"
  by (simp add: Less_data_def)

lemma Less_data_unequal:
  "sorted_wrt (\<lambda>a b. \<not> PropertyValue_equal a b \<and> \<not> PropertyValue_equal b a) Less_data"
  by (simp add: Less_data_def)

lemma Less_data_kinds: "distinct (map type_of Less_data)"
  by (simp add: Less_data_def)

lemma different_kinds:
  assumes "type_of a \<noteq> type_of b"
    and "\<not> (type_of a = Type_Int \<and> type_of b = Type_Double)"
    and "\<not> (type_of a = Type_Double \<and> type_of b = Type_Int)"
  shows "\<not> PropertyValue_equal a b \<and>
         (PropertyValue_less a b \<longleftrightarrow> type_tag (type_of a) < type_tag (type_of b))"
  using assms not_comparable [of a b] by (simp add: AreComparableTypes_def)

lemma numeric_comparison:
  "(PropertyValue_equal (PV_Int i) (PV_Double d) \<longleftrightarrow> real_of_int i = d) \<and>
   (PropertyValue_equal (PV_Double d) (PV_Int i) \<longleftrightarrow> d = real_of_int i) \<and>
   (PropertyValue_less (PV_Int i) (PV_Double d) \<longleftrightarrow> real_of_int i < d) \<and>
   (PropertyValue_less (PV_Double d) (PV_Int i) \<longleftrightarrow> d < real_of_int i) \<and>
   (PropertyValue_equal (PV_Int i) (PV_Int j) \<longleftrightarrow> i = j) \<and>
   (PropertyValue_less (PV_Int i) (PV_Int j) \<longleftrightarrow> i < j) \<and>
   (PropertyValue_equal (PV_Double d) (PV_Double e) \<longleftrightarrow> d = e) \<and>
   (PropertyValue_less (PV_Double d) (PV_Double e) \<longleftrightarrow> d < e)"
  by simp

text \<open>
  Claim C8.  Comparison is numeric across int and double: an int and a double are
  equal when they denote the same number and one is less than the other when its
  number is less, as two ints or two doubles are.  Values of two different kinds, other
  than an int and a double, are never equal and are ordered by kind, in the order of
  the type tag (null, bool, int, double, string, list, map, temporal).  So
  \<open>PropertyValue(2)\<close> equals \<open>PropertyValue(2.0)\<close> and neither is less than the other,
  and in the sequence
  \<open>[null, true, 123, 123.5, "nandare", [true, 123], {nandare: false}]\<close> the seven values
  have seven different kinds, every value at a smaller index is strictly less than
  every value at a larger index, and no two of them are equal.
\<close>

theorem PropertyValue_comparison:
  "(PropertyValue_equal (PV_Int i) (PV_Double d) \<longleftrightarrow> real_of_int i = d) \<and>
   (PropertyValue_equal (PV_Double d) (PV_Int i) \<longleftrightarrow> d = real_of_int i) \<and>
   (PropertyValue_less (PV_Int i) (PV_Double d) \<longleftrightarrow> real_of_int i < d) \<and>
   (PropertyValue_less (PV_Double d) (PV_Int i) \<longleftrightarrow> d < real_of_int i) \<and>
   (PropertyValue_equal (PV_Int i) (PV_Int j) \<longleftrightarrow> i = j) \<and>
   (PropertyValue_less (PV_Int i) (PV_Int j) \<longleftrightarrow> i < j) \<and>
   (PropertyValue_equal (PV_Double d) (PV_Double e) \<longleftrightarrow> d = e) \<and>
   (PropertyValue_less (PV_Double d) (PV_Double e) \<longleftrightarrow> d < e) \<and>
   (type_of a \<noteq> type_of b \<and>
    \<not> (type_of a = Type_Int \<and> type_of b = Type_Double) \<and>
    \<not> (type_of a = Type_Double \<and> type_of b = Type_Int) \<longrightarrow>
      \<not> PropertyValue_equal a b \<and>
      (PropertyValue_less a b \<longleftrightarrow> type_tag (type_of a) < type_tag (type_of b))) \<and>
   PropertyValue_equal (PV_Int 2) (PV_Double 2.0) \<and>
   \<not> PropertyValue_less (PV_Int 2) (PV_Double 2.0) \<and>
   \<not> PropertyValue_less (PV_Double 2.0) (PV_Int 2) \<and>
   distinct (map type_of Less_data) \<and>
   (\<forall>m n. m < n \<and> n < length Less_data \<longrightarrow>
      PropertyValue_less (Less_data ! m) (Less_data ! n) \<and>
      \<not> PropertyValue_equal (Less_data ! m) (Less_data ! n) \<and>
      \<not> PropertyValue_equal (Less_data ! n) (Less_data ! m))"
proof -
  have "\<forall>m n. m < n \<and> n < length Less_data \<longrightarrow>
          PropertyValue_less (Less_data ! m) (Less_data ! n)"
    using Less_data_sorted by (simp add: sorted_wrt_iff_nth_less)
  moreover have "\<forall>m n. m < n \<and> n < length Less_data \<longrightarrow>
          \<not> PropertyValue_equal (Less_data ! m) (Less_data ! n) \<and>
          \<not> PropertyValue_equal (Less_data ! n) (Less_data ! m)"
    using Less_data_unequal by (simp add: sorted_wrt_iff_nth_less)
  moreover have "PropertyValue_equal (PV_Int 2) (PV_Double 2.0)" by simp
  moreover have "\<not> PropertyValue_less (PV_Int 2) (PV_Double 2.0)" by simp
  moreover have "\<not> PropertyValue_less (PV_Double 2.0) (PV_Int 2)" by simp
  ultimately show ?thesis
    using Less_data_kinds numeric_comparison [of i d j e] different_kinds [of a b]
    by blast
qed

theorem PropertyValue_comparison_witness:
  "type_of (PV_String ''nandare'') \<noteq> type_of (PV_Int 123) \<and>
   \<not> PropertyValue_equal (PV_String ''nandare'') (PV_Int 123) \<and>
   \<not> PropertyValue_less (PV_String ''nandare'') (PV_Int 123) \<and>
   PropertyValue_less (PV_Int 123) (PV_String ''nandare'') \<and>
   (2::nat) < 3 \<and> 3 < length Less_data \<and>
   Less_data ! 2 = PV_Int 123 \<and> Less_data ! 3 = PV_Double 123.5 \<and>
   PropertyValue_less (PV_Int 123) (PV_Double 123.5) \<and>
   \<not> PropertyValue_equal (PV_Int 123) (PV_Double 123.5)"
proof -
  have k: "type_of (PV_String ''nandare'') \<noteq> type_of (PV_Int 123)" by simp
  have s: "\<not> PropertyValue_equal (PV_String ''nandare'') (PV_Int 123) \<and>
           (PropertyValue_less (PV_String ''nandare'') (PV_Int 123) \<longleftrightarrow>
            type_tag (type_of (PV_String ''nandare'')) < type_tag (type_of (PV_Int 123)))"
    using PropertyValue_comparison [of _ _ _ _ "PV_String ''nandare''" "PV_Int 123"]
    by simp
  have t: "\<not> PropertyValue_equal (PV_Int 123) (PV_String ''nandare'') \<and>
           (PropertyValue_less (PV_Int 123) (PV_String ''nandare'') \<longleftrightarrow>
            type_tag (type_of (PV_Int 123)) < type_tag (type_of (PV_String ''nandare'')))"
    using PropertyValue_comparison [of _ _ _ _ "PV_Int 123" "PV_String ''nandare''"]
    by simp
  have h: "(2::nat) < 3 \<and> 3 < length Less_data" by (simp add: Less_data_def)
  have e: "Less_data ! 2 = PV_Int 123 \<and> Less_data ! 3 = PV_Double 123.5"
    by (simp add: Less_data_def)
  have "\<forall>m n. m < n \<and> n < length Less_data \<longrightarrow>
      PropertyValue_less (Less_data ! m) (Less_data ! n) \<and>
      \<not> PropertyValue_equal (Less_data ! m) (Less_data ! n) \<and>
      \<not> PropertyValue_equal (Less_data ! n) (Less_data ! m)"
    using PropertyValue_comparison [of 0 0 0 0 PV_Null PV_Null] by blast
  with h have "PropertyValue_less (Less_data ! 2) (Less_data ! 3) \<and>
      \<not> PropertyValue_equal (Less_data ! 2) (Less_data ! 3)"
    by blast
  with h e k s t show ?thesis by simp
qed

text \<open>
  Claim C9.  For a property value of any kind, each of the typed accessors
  \<open>ValueBool\<close>, \<open>ValueInt\<close>, \<open>ValueDouble\<close>, \<open>ValueString\<close>, \<open>ValueList\<close> and
  \<open>ValueMap\<close> for another kind fails with \<open>WrongType\<close>, and the accessor for its own
  kind returns the stored value.
\<close>

theorem typed_accessors:
  "(type_of pv \<noteq> Type_Bool \<longrightarrow> ValueBool pv = Inl WrongType) \<and>
   (type_of pv \<noteq> Type_Int \<longrightarrow> ValueInt pv = Inl WrongType) \<and>
   (type_of pv \<noteq> Type_Double \<longrightarrow> ValueDouble pv = Inl WrongType) \<and>
   (type_of pv \<noteq> Type_String \<longrightarrow> ValueString pv = Inl WrongType) \<and>
   (type_of pv \<noteq> Type_List \<longrightarrow> ValueList pv = Inl WrongType) \<and>
   (type_of pv \<noteq> Type_Map \<longrightarrow> ValueMap pv = Inl WrongType) \<and>
   (\<forall>b. pv = PV_Bool b \<longrightarrow> ValueBool pv = Inr b) \<and>
   (\<forall>i. pv = PV_Int i \<longrightarrow> ValueInt pv = Inr i) \<and>
   (\<forall>d. pv = PV_Double d \<longrightarrow> ValueDouble pv = Inr d) \<and>
   (\<forall>s. pv = PV_String s \<longrightarrow> ValueString pv = Inr s) \<and>
   (\<forall>l. pv = PV_List l \<longrightarrow> ValueList pv = Inr l) \<and>
   (\<forall>m. pv = PV_Map m \<longrightarrow> ValueMap pv = Inr m)"
  by (cases pv)
     (simp_all add: ValueBool_def ValueInt_def ValueDouble_def ValueString_def
        ValueList_def ValueMap_def)

theorem typed_accessors_witness:
  "type_of (PV_Int 123) \<noteq> Type_Bool \<and> ValueBool (PV_Int 123) = Inl WrongType \<and>
   ValueInt (PV_Int 123) = Inr 123 \<and>
   type_of (PV_Int 123) \<noteq> Type_Double \<and> ValueDouble (PV_Int 123) = Inl WrongType \<and>
   type_of (PV_Int 123) \<noteq> Type_String \<and> ValueString (PV_Int 123) = Inl WrongType \<and>
   type_of (PV_Int 123) \<noteq> Type_List \<and> ValueList (PV_Int 123) = Inl WrongType \<and>
   type_of (PV_Int 123) \<noteq> Type_Map \<and> ValueMap (PV_Int 123) = Inl WrongType"
  using typed_accessors [of "PV_Int 123"] by simp

section \<open>Recovery steps: the loops and what they compute\<close>

lemma chain_loop_Cons:
  "chain_loop rc prv i (w # rest) =
     (if prv - seq_num w > 1 then NoChain
      else if covers rc w then
        (if to_timestamp w \<le> rc
         then (if i = 0 then BeforeBegin else ChainFrom (i - 1))
         else ChainFrom i)
      else chain_loop rc (seq_num w) (Suc i) rest)"
  by (simp add: covers_def)

lemma chain_loop_spec:
  "chain_loop rc prv i ws =
     (case dropWhile (\<lambda>w. \<not> covers rc w) (sequential prv ws) of
        [] \<Rightarrow> NoChain
      | c # older \<Rightarrow>
          (let k = i + length (takeWhile (\<lambda>w. \<not> covers rc w) (sequential prv ws))
           in if to_timestamp c \<le> rc
              then (if k = 0 then BeforeBegin else ChainFrom (k - 1))
              else ChainFrom k))"
proof (induction ws arbitrary: prv i)
  case Nil
  show ?case by simp
next
  case (Cons w ws)
  show ?case
  proof (cases "prv - seq_num w > 1")
    case True
    then show ?thesis by simp
  next
    case gap: False
    show ?thesis
    proof (cases "covers rc w")
      case True
      with gap show ?thesis by (simp only: chain_loop_Cons) simp
    next
      case False
      have "chain_loop rc prv i (w # ws) = chain_loop rc (seq_num w) (Suc i) ws"
        using gap False by (simp only: chain_loop_Cons if_False)
      also have "\<dots> =
        (case dropWhile (\<lambda>w. \<not> covers rc w) (sequential (seq_num w) ws) of
           [] \<Rightarrow> NoChain
         | c # older \<Rightarrow>
            (let k = Suc i +
                   length (takeWhile (\<lambda>w. \<not> covers rc w) (sequential (seq_num w) ws))
             in if to_timestamp c \<le> rc
                then (if k = 0 then BeforeBegin else ChainFrom (k - 1))
                else ChainFrom k))"
        by (rule Cons.IH)
      also have "\<dots> =
        (case dropWhile (\<lambda>w. \<not> covers rc w) (sequential prv (w # ws)) of
           [] \<Rightarrow> NoChain
         | c # older \<Rightarrow>
            (let k = i + length (takeWhile (\<lambda>w. \<not> covers rc w) (sequential prv (w # ws)))
             in if to_timestamp c \<le> rc
                then (if k = 0 then BeforeBegin else ChainFrom (k - 1))
                else ChainFrom k))"
        using gap False
        by (cases "dropWhile (\<lambda>w. \<not> covers rc w) (sequential (seq_num w) ws)")
           (simp_all add: Let_def del: dropWhile_eq_Nil_conv)
      finally show ?thesis .
    qed
  qed
qed

lemma sequential_prefix: "\<exists>zs. ws = sequential prv ws @ zs"
  by (induction ws arbitrary: prv) auto

lemma sequential_take: "sequential prv ws = take (length (sequential prv ws)) ws"
proof -
  obtain zs where "ws = sequential prv ws @ zs" using sequential_prefix by blast
  then have "take (length (sequential prv ws)) ws = take (length (sequential prv ws)) (sequential prv ws @ zs)" by simp
  then show ?thesis by simp
qed

lemma take_of_sequential:
  assumes "m \<le> length (sequential prv ws)"
  shows "take m (sequential prv ws) = take m ws"
proof -
  have "take m (sequential prv ws) = take m (take (length (sequential prv ws)) ws)"
    using sequential_take [of prv ws] by simp
  also have "\<dots> = take m ws" using assms by (simp add: min_def)
  finally show ?thesis .
qed

lemma first_wal_loop_Cons:
  "first_wal_loop s i (w # rest) =
     (if ends_by s w then first_wal_loop s (Suc i) rest
      else if s < from_timestamp w then
        (if i = 0 then Inl (CheckFailed ''Invalid durability files state'') else Inr (i - 1))
      else Inr i)"
proof (cases "to_timestamp w \<le> s")
  case True
  then have "\<not> s < to_timestamp w" by simp
  with True show ?thesis by (simp add: ends_by_def)
next
  case False
  then have "s < to_timestamp w" by simp
  with False show ?thesis by (simp add: ends_by_def)
qed

lemma first_wal_loop_spec:
  "first_wal_loop s i ws =
     (case dropWhile (ends_by s) ws of
        [] \<Rightarrow> Inr (i + length ws)
      | c # later \<Rightarrow>
          (let k = i + length (takeWhile (ends_by s) ws)
           in if s < from_timestamp c
              then (if k = 0 then Inl (CheckFailed ''Invalid durability files state'')
                    else Inr (k - 1))
              else Inr k))"
proof (induction ws arbitrary: i)
  case Nil
  show ?case by simp
next
  case (Cons w ws)
  show ?case
  proof (cases "ends_by s w")
    case False
    then show ?thesis by (simp only: first_wal_loop_Cons) simp
  next
    case True
    have "first_wal_loop s i (w # ws) = first_wal_loop s (Suc i) ws"
      using True by (simp only: first_wal_loop_Cons if_True)
    also have "\<dots> =
      (case dropWhile (ends_by s) ws of
         [] \<Rightarrow> Inr (Suc i + length ws)
       | c # later \<Rightarrow>
          (let k = Suc i + length (takeWhile (ends_by s) ws)
           in if s < from_timestamp c
              then (if k = 0 then Inl (CheckFailed ''Invalid durability files state'')
                    else Inr (k - 1))
              else Inr k))"
      by (rule Cons.IH)
    also have "\<dots> =
      (case dropWhile (ends_by s) (w # ws) of
         [] \<Rightarrow> Inr (i + length (w # ws))
       | c # later \<Rightarrow>
          (let k = i + length (takeWhile (ends_by s) (w # ws))
           in if s < from_timestamp c
              then (if k = 0 then Inl (CheckFailed ''Invalid durability files state'')
                    else Inr (k - 1))
              else Inr k))"
      using True
      by (cases "dropWhile (ends_by s) ws")
         (simp_all add: Let_def del: dropWhile_eq_Nil_conv)
    finally show ?thesis .
  qed
qed

lemma drop_pred_takeWhile:
  assumes "takeWhile P xs \<noteq> []"
  shows "drop (length (takeWhile P xs) - 1) xs = last (takeWhile P xs) # dropWhile P xs"
proof -
  let ?t = "takeWhile P xs"
  have xs: "xs = ?t @ dropWhile P xs" by simp
  have t: "?t = butlast ?t @ [last ?t]" using assms by simp
  have "drop (length ?t - 1) xs = drop (length (butlast ?t)) (butlast ?t @ [last ?t] @ dropWhile P xs)"
    using xs t by (metis append_assoc length_butlast)
  then show ?thesis by simp
qed

lemma sequential_newest:
  assumes "files \<noteq> []"
  shows "\<exists>rest. sequential (seq_num (last files)) (rev files) = last files # rest"
proof -
  obtain ys y where f: "files = ys @ [y]"
    using assms by (cases files rule: rev_cases) auto
  show ?thesis unfolding f by simp
qed

lemma needed_suffix:
  assumes files: "files \<noteq> []"
    and dw: "dropWhile (\<lambda>w. \<not> covers rc w) (sequential prv (rev files)) = c # older"
  shows "rev (takeWhile (\<lambda>w. \<not> covers rc w) (sequential prv (rev files))) =
           drop (length files - length (takeWhile (\<lambda>w. \<not> covers rc w) (sequential prv (rev files)))) files"
    and "c # rev (takeWhile (\<lambda>w. \<not> covers rc w) (sequential prv (rev files))) =
           drop (length files - 1 - length (takeWhile (\<lambda>w. \<not> covers rc w) (sequential prv (rev files)))) files"
proof -
  let ?P = "\<lambda>w. \<not> covers rc w"
  let ?S = "sequential prv (rev files)"
  let ?m = "length (takeWhile ?P ?S)"
  have S: "?S = takeWhile ?P ?S @ c # older"
    using dw by (metis takeWhile_dropWhile_id)
  then have "length ?S = ?m + Suc (length older)"
    by (metis length_append length_Cons)
  then have m: "Suc ?m \<le> length ?S" by simp
  have "takeWhile ?P ?S = take ?m ?S" by (rule takeWhile_eq_take)
  also have "\<dots> = take ?m (rev files)" using m by (simp add: take_of_sequential)
  also have "\<dots> = rev (drop (length files - ?m) files)" by (rule take_rev)
  finally have "rev (takeWhile ?P ?S) = rev (rev (drop (length files - ?m) files))" by simp
  then show "rev (takeWhile ?P ?S) = drop (length files - ?m) files" by simp
  have "takeWhile ?P ?S @ [c] = take (Suc ?m) ?S"
    using S by (metis append.assoc append_Cons append_Nil append_eq_conv_conj length_append_singleton)
  also have "\<dots> = take (Suc ?m) (rev files)" using m by (simp add: take_of_sequential)
  also have "\<dots> = rev (drop (length files - Suc ?m) files)" by (rule take_rev)
  finally have "rev (takeWhile ?P ?S @ [c]) = rev (rev (drop (length files - Suc ?m) files))"
    by simp
  then show "c # rev (takeWhile ?P ?S) = drop (length files - 1 - ?m) files" by simp
qed

lemma chain_found:
  assumes files: "files \<noteq> []"
    and behind: "rc < to_timestamp (last files)"
    and dw: "dropWhile (\<lambda>w. \<not> covers rc w) (sequential (seq_num (last files)) (rev files)) = c # older"
  shows "\<exists>i. chain_loop rc (seq_num (last files)) 0 (rev files) = ChainFrom i \<and>
             drop (length files - 1 - i) files = needed_wals rc files \<and>
             needed_wals rc files \<noteq> []"
proof -
  let ?P = "\<lambda>w. \<not> covers rc w"
  let ?S = "sequential (seq_num (last files)) (rev files)"
  let ?m = "length (takeWhile ?P ?S)"
  note suffix = needed_suffix [OF files dw]
  have loop: "chain_loop rc (seq_num (last files)) 0 (rev files) =
      (if to_timestamp c \<le> rc then (if ?m = 0 then BeforeBegin else ChainFrom (?m - 1))
       else ChainFrom ?m)"
    by (simp add: chain_loop_spec [of rc "seq_num (last files)" 0 "rev files"] dw Let_def)
  show ?thesis
  proof (cases "to_timestamp c \<le> rc")
    case True
    have m: "?m \<noteq> 0"
    proof
      assume "?m = 0"
      then have "takeWhile ?P ?S = []" by simp
      then have "?S = c # older" using dw by (metis append_Nil takeWhile_dropWhile_id)
      moreover obtain rest where "?S = last files # rest"
        using sequential_newest [OF files] by blast
      ultimately have "c = last files" by simp
      with True behind show False by simp
    qed
    have n: "needed_wals rc files = rev (takeWhile ?P ?S)"
      using True dw by (simp add: needed_wals_def needed_of_chain_def)
    have "length files - 1 - (?m - 1) = length files - ?m" using m by simp
    with suffix(1) n have "drop (length files - 1 - (?m - 1)) files = needed_wals rc files"
      by simp
    moreover have "needed_wals rc files \<noteq> []" using n m by simp
    ultimately show ?thesis using loop True m by simp
  next
    case False
    have n: "needed_wals rc files = c # rev (takeWhile ?P ?S)"
      using False dw by (simp add: needed_wals_def needed_of_chain_def)
    with suffix(2) have "drop (length files - 1 - ?m) files = needed_wals rc files"
      by simp
    moreover have "needed_wals rc files \<noteq> []" using n by simp
    ultimately show ?thesis using loop False by simp
  qed
qed

lemma chain_covers:
  assumes files: "files \<noteq> []"
    and covered: "from_timestamp (hd (sequential_chain files)) \<le> rc"
  shows "\<exists>c older. dropWhile (\<lambda>w. \<not> covers rc w) (sequential (seq_num (last files)) (rev files)) = c # older"
proof -
  let ?S = "sequential (seq_num (last files)) (rev files)"
  obtain rest where S: "?S = last files # rest"
    using sequential_newest [OF files] by blast
  then have ne: "?S \<noteq> []" by simp
  have "hd (sequential_chain files) = last ?S"
    by (simp add: sequential_chain_def hd_rev)
  with covered have "covers rc (last ?S)" by (simp add: covers_def)
  moreover have "last ?S \<in> set ?S" using ne by simp
  ultimately have "\<not> (\<forall>x\<in>set ?S. \<not> covers rc x)" by blast
  then have "dropWhile (\<lambda>w. \<not> covers rc w) ?S \<noteq> []" by simp
  then show ?thesis by (cases "dropWhile (\<lambda>w. \<not> covers rc w) ?S") auto
qed

text \<open>
  Claim C2, as amended.  When the newest finalized WAL file ends after the replica's
  commit and the longest chain of sequential finalized WAL files ending at the newest
  one begins at or before the replica's commit, \<open>GetRecoverySteps\<close> returns WAL
  steps only and no snapshot: one \<open>RecoveryWals\<close> step, followed by the current WAL
  when there is one.  The files of the step are the end of the list of finalized WAL
  files, through the newest: they begin at the newest file of the chain that covers
  the replica, or at the file after it when the replica already holds every commit of
  that file.
\<close>

theorem GetRecoverySteps_wal_chain:
  assumes files: "wal_files storage = Some files" "files \<noteq> []"
    and behind: "replica_commit < to_timestamp (last files)"
    and covered: "from_timestamp (hd (sequential_chain files)) \<le> replica_commit"
  shows "GetRecoverySteps storage replica_commit =
           Inr ([RecoveryWals (map path (needed_wals replica_commit files))]
                  @ current_wal_step (wal_file storage),
                map path (needed_wals replica_commit files)) \<and>
         needed_wals replica_commit files \<noteq> [] \<and>
         (\<exists>older. files = older @ needed_wals replica_commit files)"
proof -
  obtain c older where
    dw: "dropWhile (\<lambda>w. \<not> covers replica_commit w)
           (sequential (seq_num (last files)) (rev files)) = c # older"
    using chain_covers [OF files(2) covered] by blast
  obtain i where
    loop: "chain_loop replica_commit (seq_num (last files)) 0 (rev files) = ChainFrom i"
    and chain: "drop (length files - 1 - i) files = needed_wals replica_commit files"
    and ne: "needed_wals replica_commit files \<noteq> []"
    using chain_found [OF files(2) behind dw] by blast
  have guard: "\<not> to_timestamp (last files) \<le> replica_commit" using behind by simp
  have "GetRecoverySteps storage replica_commit =
           Inr ([RecoveryWals (map path (needed_wals replica_commit files))]
                  @ current_wal_step (wal_file storage),
                map path (needed_wals replica_commit files))"
    using files guard loop chain by (simp add: GetRecoverySteps_def Let_def)
  moreover have "files = take (length files - 1 - i) files @ needed_wals replica_commit files"
    using chain by (metis append_take_drop_id)
  ultimately show ?thesis using ne by blast
qed

theorem GetRecoverySteps_wal_chain_witness:
  "wal_files (main_instance long_wals []) = Some long_wals \<and> long_wals \<noteq> [] \<and>
   50 < to_timestamp (last long_wals) \<and>
   from_timestamp (hd (sequential_chain long_wals)) \<le> 50 \<and>
   GetRecoverySteps (main_instance long_wals []) 50 =
     Inr ([RecoveryWals [''wal5'', ''wal6'', ''wal7'']], [''wal5'', ''wal6'', ''wal7''])"
proof -
  have f: "wal_files (main_instance long_wals []) = Some long_wals"
    by (simp add: main_instance_def)
  have n: "long_wals \<noteq> []" by (simp add: long_wals_def)
  have b: "50 < to_timestamp (last long_wals)" by (simp add: long_wals_def)
  have c: "from_timestamp (hd (sequential_chain long_wals)) \<le> 50"
    by (simp add: sequential_chain_def long_wals_def)
  have w: "map path (needed_wals 50 long_wals) = [''wal5'', ''wal6'', ''wal7'']"
    by (simp add: needed_wals_def needed_of_chain_def long_wals_def covers_def)
  have cur: "current_wal_step (wal_file (main_instance long_wals [])) = []"
    by (simp add: main_instance_def current_wal_step_def)
  from GetRecoverySteps_wal_chain [OF f n b c] w cur
  have "GetRecoverySteps (main_instance long_wals []) 50 =
     Inr ([RecoveryWals [''wal5'', ''wal6'', ''wal7'']], [''wal5'', ''wal6'', ''wal7''])"
    by simp
  with f n b c show ?thesis by blast
qed

text \<open>
  The claim as it is stated fails in two ways.  With WAL files 4 to 7 that hold one commit
  each and the replica at the commit of WAL 5, the chain covers the replica and yet
  WAL 5 is not sent, only WAL 6 and WAL 7.  With the replica at the last commit of the
  newest finalized WAL the chain covers the replica too, and the only step is the
  timestamp of the latest snapshot.
\<close>

theorem GetRecoverySteps_wal_chain_counterexample:
  "from_timestamp (hd (sequential_chain short_wals)) \<le> 50 \<and>
   steps_of (GetRecoverySteps (main_instance short_wals []) 50) =
     Inr [RecoveryWals [''wal6'', ''wal7'']] \<and>
   steps_of (GetRecoverySteps (main_instance short_wals []) 50) \<noteq>
     Inr [RecoveryWals [''wal5'', ''wal6'', ''wal7'']] \<and>
   from_timestamp (hd (sequential_chain short_wals)) \<le> 70 \<and>
   steps_of (GetRecoverySteps (main_instance short_wals [snapshot_5]) 70) =
     Inr [RecoveryFinalSnapshot 5]"
  by (simp add: sequential_chain_def short_wals_def steps_of_def GetRecoverySteps_def
      main_instance_def current_wal_step_def current_wal_or_final_snapshot_def snapshot_5_def
      Let_def)

lemma no_chain:
  assumes files: "files \<noteq> []"
    and none: "\<forall>w\<in>set (sequential_chain files). \<not> covers rc w"
  shows "chain_loop rc (seq_num (last files)) 0 (rev files) = NoChain"
proof -
  have "\<forall>w\<in>set (sequential (seq_num (last files)) (rev files)). \<not> covers rc w"
    using none by (simp add: sequential_chain_def)
  then have "dropWhile (\<lambda>w. \<not> covers rc w) (sequential (seq_num (last files)) (rev files)) = []"
    by simp
  then show ?thesis
    by (simp add: chain_loop_spec [of rc "seq_num (last files)" 0 "rev files"]
          del: dropWhile_eq_Nil_conv)
qed

lemma first_wal_found:
  assumes files: "files \<noteq> []"
    and valid: "\<not> invalid_durability_state s files"
  shows "\<exists>i. first_wal_loop s 0 files = Inr i \<and>
             (if drop i files = [] then [last files] else drop i files) =
               wals_after_snapshot s files"
proof (cases "dropWhile (ends_by s) files")
  case Nil
  then have "first_wal_loop s 0 files = Inr (length files)"
    by (simp add: first_wal_loop_spec [of s 0 files] del: dropWhile_eq_Nil_conv)
  moreover have "wals_after_snapshot s files = [last files]"
    using Nil by (simp add: wals_after_snapshot_def del: dropWhile_eq_Nil_conv)
  ultimately show ?thesis by simp
next
  case (Cons c later)
  let ?t = "takeWhile (ends_by s) files"
  have d: "drop (length ?t) files = c # later"
    using Cons by (simp add: dropWhile_eq_drop [symmetric])
  show ?thesis
  proof (cases "s < from_timestamp c")
    case True
    with valid Cons have t: "?t \<noteq> []" by (simp add: invalid_durability_state_def)
    then have "first_wal_loop s 0 files = Inr (length ?t - 1)"
      using Cons True by (simp add: first_wal_loop_spec [of s 0 files] Let_def)
    moreover have "drop (length ?t - 1) files = last ?t # c # later"
      using drop_pred_takeWhile [OF t] Cons by simp
    moreover have "wals_after_snapshot s files = last ?t # c # later"
      using Cons True by (simp add: wals_after_snapshot_def Let_def)
    ultimately show ?thesis by (simp del: drop_eq_Nil drop_eq_Nil2)
  next
    case False
    then have "first_wal_loop s 0 files = Inr (length ?t)"
      using Cons by (simp add: first_wal_loop_spec [of s 0 files] Let_def)
    moreover have "wals_after_snapshot s files = c # later"
      using Cons False by (simp add: wals_after_snapshot_def Let_def)
    ultimately show ?thesis using d by (simp del: drop_eq_Nil drop_eq_Nil2)
  qed
qed

lemma wals_after_snapshot_complete:
  assumes "w \<in> set files" and "s < to_timestamp w"
  shows "w \<in> set (wals_after_snapshot s files)"
proof -
  have "w \<notin> set (takeWhile (ends_by s) files)"
    using assms(2) by (auto simp: ends_by_def dest: set_takeWhileD)
  moreover have "set files = set (takeWhile (ends_by s) files) \<union> set (dropWhile (ends_by s) files)"
    by (metis set_append takeWhile_dropWhile_id)
  ultimately have w: "w \<in> set (dropWhile (ends_by s) files)" using assms(1) by blast
  then show ?thesis
    by (cases "dropWhile (ends_by s) files")
       (auto simp: wals_after_snapshot_def Let_def simp del: dropWhile_eq_Nil_conv)
qed

lemma chain_loop_in_range:
  assumes files: "files \<noteq> []" and behind: "rc < to_timestamp (last files)"
  shows "chain_loop rc (seq_num (last files)) 0 (rev files) \<noteq> BeforeBegin"
proof (cases "dropWhile (\<lambda>w. \<not> covers rc w) (sequential (seq_num (last files)) (rev files))")
  case Nil
  then show ?thesis
    by (simp add: chain_loop_spec [of rc "seq_num (last files)" 0 "rev files"]
          del: dropWhile_eq_Nil_conv)
next
  case (Cons c older)
  from chain_found [OF files behind Cons] show ?thesis by auto
qed

lemma sorted_dropWhile_ends_by:
  "sorted (map to_timestamp files) \<Longrightarrow>
     dropWhile (ends_by s) files = wals_ending_after s files"
proof (induction files)
  case Nil
  show ?case by (simp add: wals_ending_after_def)
next
  case (Cons w files)
  show ?case
  proof (cases "ends_by s w")
    case True
    then have "\<not> s < to_timestamp w" by (simp add: ends_by_def)
    with True Cons show ?thesis by (simp add: wals_ending_after_def)
  next
    case False
    then have "s < to_timestamp w" by (simp add: ends_by_def)
    moreover from Cons.prems have "\<forall>v\<in>set files. to_timestamp w \<le> to_timestamp v"
      by simp
    ultimately have "\<forall>v\<in>set files. s < to_timestamp v" by fastforce
    then have "filter (\<lambda>v. s < to_timestamp v) files = files" by simp
    with False \<open>s < to_timestamp w\<close> show ?thesis by (simp add: wals_ending_after_def)
  qed
qed

lemma invalid_durability_state_hd:
  assumes "files \<noteq> []"
  shows "invalid_durability_state s files \<longleftrightarrow>
           s < from_timestamp (hd files) \<and> s < to_timestamp (hd files)"
proof -
  obtain w rest where f: "files = w # rest" using assms by (cases files) auto
  show ?thesis
  proof (cases "to_timestamp w \<le> s")
    case True
    then have "\<not> s < to_timestamp w" by simp
    with True show ?thesis
      by (cases "dropWhile (ends_by s) rest")
         (simp_all add: f invalid_durability_state_def ends_by_def del: dropWhile_eq_Nil_conv)
  next
    case False
    then have "s < to_timestamp w" by simp
    with False show ?thesis by (simp add: f invalid_durability_state_def ends_by_def)
  qed
qed

text \<open>
  Claim C1, as amended.  When the newest finalized WAL file ends after the replica's
  commit, every file of the longest chain of sequential WAL files begins after the
  replica's commit and none of them has the sequence number 0, there is a snapshot,
  and the oldest finalized WAL file begins or ends at or before the snapshot's start,
  \<open>GetRecoverySteps\<close> returns the latest snapshot as its first
  step, then one \<open>RecoveryWals\<close> step, then the current WAL when there is one.  The
  \<open>RecoveryWals\<close> step holds every finalized WAL file whose \<open>to_timestamp\<close> is
  greater than the snapshot's \<open>start_timestamp\<close>, but not exactly those: it holds all
  files from the first such file on, the file before it as well when that first file
  begins after the snapshot's start, and the newest file alone when no file ends after
  the snapshot's start.
\<close>

theorem GetRecoverySteps_snapshot:
  assumes files: "wal_files storage = Some files" "files \<noteq> []"
    and behind: "replica_commit < to_timestamp (last files)"
    and none: "\<forall>w\<in>set (sequential_chain files).
                 replica_commit < from_timestamp w \<and> seq_num w \<noteq> 0"
    and snapshot: "snapshot_files storage \<noteq> []" "snapshot = last (snapshot_files storage)"
    and valid: "from_timestamp (hd files) \<le> start_timestamp snapshot \<or>
                to_timestamp (hd files) \<le> start_timestamp snapshot"
  shows "GetRecoverySteps storage replica_commit =
           Inr ([RecoverySnapshot (snapshot_path snapshot),
                 RecoveryWals
                   (map path (wals_after_snapshot (start_timestamp snapshot) files))]
                  @ current_wal_step (wal_file storage),
                snapshot_path snapshot #
                  map path (wals_after_snapshot (start_timestamp snapshot) files)) \<and>
         (\<forall>w\<in>set files. start_timestamp snapshot < to_timestamp w \<longrightarrow>
            w \<in> set (wals_after_snapshot (start_timestamp snapshot) files))"
proof -
  have guard: "\<not> to_timestamp (last files) \<le> replica_commit" using behind by simp
  have "\<forall>w\<in>set (sequential_chain files). \<not> covers replica_commit w"
    using none by (auto simp: covers_def)
  then have loop: "chain_loop replica_commit (seq_num (last files)) 0 (rev files) = NoChain"
    by (rule no_chain [OF files(2)])
  have "\<not> invalid_durability_state (start_timestamp snapshot) files"
    using valid by (auto simp: invalid_durability_state_hd [OF files(2)])
  then obtain i where
    i: "first_wal_loop (start_timestamp snapshot) 0 files = Inr i"
    and rest: "(if drop i files = [] then [last files] else drop i files) =
                 wals_after_snapshot (start_timestamp snapshot) files"
    using first_wal_found [OF files(2)] by blast
  have r: "(if map path (drop i files) = [] then [path (last files)]
            else map path (drop i files)) =
             map path (wals_after_snapshot (start_timestamp snapshot) files)"
    using rest [symmetric] by (simp split: if_splits)
  have "GetRecoverySteps storage replica_commit =
           Inr ([RecoverySnapshot (snapshot_path snapshot),
                 RecoveryWals
                   (map path (wals_after_snapshot (start_timestamp snapshot) files))]
                  @ current_wal_step (wal_file storage),
                snapshot_path snapshot #
                  map path (wals_after_snapshot (start_timestamp snapshot) files))"
    using files guard loop snapshot i r
    by (simp add: GetRecoverySteps_def Let_def del: map_is_Nil_conv drop_eq_Nil drop_eq_Nil2)
  then show ?thesis using wals_after_snapshot_complete by blast
qed

theorem GetRecoverySteps_snapshot_witness:
  "wal_files (main_instance wals_6_7 [snapshot_5]) = Some wals_6_7 \<and> wals_6_7 \<noteq> [] \<and>
   0 < to_timestamp (last wals_6_7) \<and>
   filter (covers 0) (sequential_chain wals_6_7) = [] \<and>
   snapshot_files (main_instance wals_6_7 [snapshot_5]) \<noteq> [] \<and>
   snapshot_5 = last (snapshot_files (main_instance wals_6_7 [snapshot_5])) \<and>
   from_timestamp (hd wals_6_7) \<le> start_timestamp snapshot_5 \<and>
   GetRecoverySteps (main_instance wals_6_7 [snapshot_5]) 0 =
     Inr ([RecoverySnapshot ''snapshot5'', RecoveryWals [''wal6'', ''wal7'']],
          [''snapshot5'', ''wal6'', ''wal7''])"
proof -
  have f: "wal_files (main_instance wals_6_7 [snapshot_5]) = Some wals_6_7"
    by (simp add: main_instance_def)
  have n: "wals_6_7 \<noteq> []" by (simp add: wals_6_7_def)
  have b: "0 < to_timestamp (last wals_6_7)" by (simp add: wals_6_7_def)
  have c0: "filter (covers 0) (sequential_chain wals_6_7) = []"
    by (simp add: sequential_chain_def wals_6_7_def covers_def)
  have c: "\<forall>w\<in>set (sequential_chain wals_6_7). 0 < from_timestamp w \<and> seq_num w \<noteq> 0"
    by (simp add: sequential_chain_def wals_6_7_def)
  have s: "snapshot_files (main_instance wals_6_7 [snapshot_5]) \<noteq> []"
    by (simp add: main_instance_def)
  have l: "snapshot_5 = last (snapshot_files (main_instance wals_6_7 [snapshot_5]))"
    by (simp add: main_instance_def)
  have v0: "from_timestamp (hd wals_6_7) \<le> start_timestamp snapshot_5"
    by (simp add: wals_6_7_def snapshot_5_def)
  then have v: "from_timestamp (hd wals_6_7) \<le> start_timestamp snapshot_5 \<or>
                to_timestamp (hd wals_6_7) \<le> start_timestamp snapshot_5"
    by simp
  have w: "map path (wals_after_snapshot (start_timestamp snapshot_5) wals_6_7) =
             [''wal6'', ''wal7'']"
    by (simp add: wals_after_snapshot_def wals_6_7_def snapshot_5_def ends_by_def)
  have cur: "current_wal_step (wal_file (main_instance wals_6_7 [snapshot_5])) = []"
    by (simp add: main_instance_def current_wal_step_def)
  have p: "snapshot_path snapshot_5 = ''snapshot5''" by (simp add: snapshot_5_def)
  from GetRecoverySteps_snapshot [OF f n b c s l v] w cur p
  have "GetRecoverySteps (main_instance wals_6_7 [snapshot_5]) 0 =
     Inr ([RecoverySnapshot ''snapshot5'', RecoveryWals [''wal6'', ''wal7'']],
          [''snapshot5'', ''wal6'', ''wal7''])"
    by simp
  with f n b c0 s l v0 show ?thesis by blast
qed

text \<open>
  The claim as it is stated fails: with WAL 5 ending before the snapshot and WAL 6
  beginning after it, no chain covers a replica at 0, the files that end after the
  snapshot are WAL 6 and WAL 7, and the step holds WAL 5 as well.  Without WAL 5 the
  files that end after the snapshot are WAL 6 and WAL 7 again, and the call fails its
  check of the durability files.  With the first three WAL files the main instance
  wrote, none begins at or before the commit of a replica at 0, and yet the chain is
  built at the file with sequence number 0: the steps are its three files and no
  snapshot.
\<close>

theorem GetRecoverySteps_snapshot_counterexample:
  "filter (covers 0) (sequential_chain wals_5_6_7) = [] \<and>
   map path (wals_ending_after 5 wals_5_6_7) = [''wal6'', ''wal7''] \<and>
   steps_of (GetRecoverySteps (main_instance wals_5_6_7 [snapshot_5]) 0) =
     Inr [RecoverySnapshot ''snapshot5'', RecoveryWals [''wal5'', ''wal6'', ''wal7'']] \<and>
   filter (covers 0) (sequential_chain late_wals_6_7) = [] \<and>
   map path (wals_ending_after 5 late_wals_6_7) = [''wal6'', ''wal7''] \<and>
   steps_of (GetRecoverySteps (main_instance late_wals_6_7 [snapshot_5]) 0) =
     Inl (CheckFailed ''Invalid durability files state'') \<and>
   filter (begins_by 0) (sequential_chain first_wals) = [] \<and>
   steps_of (GetRecoverySteps (main_instance first_wals [snapshot_5]) 0) =
     Inr [RecoveryWals [''wal0'', ''wal1'', ''wal2'']]"
  by (simp add: sequential_chain_def wals_5_6_7_def late_wals_6_7_def first_wals_def
      covers_def begins_by_def wals_ending_after_def steps_of_def GetRecoverySteps_def
      main_instance_def current_wal_step_def snapshot_5_def Let_def)

section \<open>The client: transaction replication and the heartbeat\<close>

text \<open>
  A replica behind the main instance catches up by the WAL chain: the reconnect finds
  it at commit 50 and schedules the recovery, the recovery sends the WAL files 5 to 7
  and ends in \<open>READY\<close>.
\<close>

lemma catch_up_by_wal_chain:
  "client_run 0
     [(lagging_world, StartTransaction 8), (lagging_world, RunTask 0),
      (calm_world, RunTask 0)] invalid_client = Inr ready_client"
  by (simp add: client_step_def run_task_def StartTransactionReplication_def
      HandleRpcFailure_def TryInitializeClient_def InitializeClient_def
      branching_point_def RecoverReplica_def GetRecoverySteps_def recovery_step_def
      current_wal_step_def lagging_world_def calm_world_def main_instance_def
      long_wals_def invalid_client_def ready_client_def Let_def)

text \<open>
  Claim C4, as amended.  For every call of \<open>StartTransactionReplication\<close>: in state
  \<open>READY\<close> (with no stream left open) it opens a replica stream and goes to
  \<open>REPLICATING\<close> when the stream opens, and goes to \<open>INVALID\<close> and fires the
  reconnect handler when opening the stream fails; in state \<open>REPLICATING\<close> it goes to
  \<open>RECOVERY\<close> and changes nothing else, so no recovery task is put into the pool; in
  state \<open>RECOVERY\<close> it changes nothing; in state \<open>INVALID\<close> it fires the reconnect
  handler and changes nothing else.  No other transitions occur.
\<close>

theorem StartTransactionReplication_transitions:
  "(replica_state this = READY \<and> replica_stream this = None \<and> stream_opens w \<longrightarrow>
      (\<exists>this'. StartTransactionReplication w n this = Inr this' \<and>
         replica_state this' = REPLICATING \<and> replica_stream this' \<noteq> None \<and>
         thread_pool this' = thread_pool this)) \<and>
   (replica_state this = READY \<and> replica_stream this = None \<and> \<not> stream_opens w \<longrightarrow>
      (\<exists>this'. StartTransactionReplication w n this = Inr this' \<and>
         replica_state this' = INVALID \<and> replica_stream this' = None \<and>
         thread_pool this' = thread_pool this @ [ReconnectTask])) \<and>
   (replica_state this = REPLICATING \<longrightarrow>
      StartTransactionReplication w n this = Inr (this\<lparr>replica_state := RECOVERY\<rparr>)) \<and>
   (replica_state this = RECOVERY \<longrightarrow> StartTransactionReplication w n this = Inr this) \<and>
   (replica_state this = INVALID \<longrightarrow>
      StartTransactionReplication w n this =
        Inr (this\<lparr>thread_pool := thread_pool this @ [ReconnectTask]\<rparr>)) \<and>
   (\<forall>this'. StartTransactionReplication w n this = Inr this' \<longrightarrow>
      (replica_state this, replica_state this') \<in>
        {(READY, REPLICATING), (READY, INVALID), (REPLICATING, RECOVERY),
         (RECOVERY, RECOVERY), (INVALID, INVALID)})"
  by (cases "replica_state this")
     (auto simp: StartTransactionReplication_def HandleRpcFailure_def split: if_splits)

theorem StartTransactionReplication_transitions_witness:
  "replica_state ready_client = READY \<and> replica_stream ready_client = None \<and>
   stream_opens calm_world \<and>
   (\<exists>this'. StartTransactionReplication calm_world 8 ready_client = Inr this' \<and>
      replica_state this' = REPLICATING \<and> replica_stream this' \<noteq> None \<and>
      thread_pool this' = thread_pool ready_client) \<and>
   replica_state replicating_client = REPLICATING \<and>
   StartTransactionReplication calm_world 9 replicating_client =
     Inr (replicating_client\<lparr>replica_state := RECOVERY\<rparr>)"
proof -
  have r: "replica_state ready_client = READY \<and> replica_stream ready_client = None \<and>
           stream_opens calm_world"
    by (simp add: ready_client_def calm_world_def)
  have p: "replica_state replicating_client = REPLICATING"
    by (simp add: replicating_client_def)
  show ?thesis
    using r p StartTransactionReplication_transitions [of ready_client calm_world 8]
      StartTransactionReplication_transitions [of replicating_client calm_world 9]
    by blast
qed

text \<open>
  The claim as it is stated fails: a \<open>READY\<close> client whose stream does not open goes to
  \<open>INVALID\<close>, has no stream and has fired the reconnect handler.
\<close>

theorem StartTransactionReplication_counterexample:
  "replica_state ready_client = READY \<and>
   map_sum id replica_state (StartTransactionReplication unreachable_world 8 ready_client) =
     Inr INVALID \<and>
   map_sum id thread_pool (StartTransactionReplication unreachable_world 8 ready_client) =
     Inr [ReconnectTask] \<and>
   map_sum id replica_stream (StartTransactionReplication unreachable_world 8 ready_client) =
     Inr None"
  by (simp add: StartTransactionReplication_def ready_client_def unreachable_world_def
      calm_world_def HandleRpcFailure_def)








section \<open>The client: the fallback from \<open>SYNC\<close> to \<open>ASYNC\<close>\<close>

text \<open>Which calls write \<open>mode_\<close> and \<open>timeout_\<close>: only the wake-up of the main thread.\<close>

lemma HandleRpcFailure_mode:
  "mode (HandleRpcFailure this) = mode this \<and> timeout (HandleRpcFailure this) = timeout this"
  by (simp add: HandleRpcFailure_def)

lemma InitializeClient_mode:
  "InitializeClient k w this = Inr this' \<Longrightarrow> mode this' = mode this \<and> timeout this' = timeout this"
  by (auto simp: InitializeClient_def split: sum.splits if_splits)

lemma TryInitializeClient_mode:
  "TryInitializeClient k w this = Inr this' \<Longrightarrow>
     mode this' = mode this \<and> timeout this' = timeout this"
  by (auto simp: TryInitializeClient_def split: sum.splits error.splits
        dest: InitializeClient_mode)

lemma StartTransactionReplication_mode:
  "StartTransactionReplication w n this = Inr this' \<Longrightarrow>
     mode this' = mode this \<and> timeout this' = timeout this"
  by (cases "replica_state this")
     (auto simp: StartTransactionReplication_def HandleRpcFailure_def split: if_splits)

lemma IfStreamingTransaction_mode:
  "IfStreamingTransaction callback this = Inr this' \<Longrightarrow>
     mode this' = mode this \<and> timeout this' = timeout this"
  by (auto simp: IfStreamingTransaction_def HandleRpcFailure_def
        split: if_splits option.splits sum.splits error.splits)

lemma FinalizeTransactionReplicationInternal_mode:
  "FinalizeTransactionReplicationInternal w this = Inr this' \<Longrightarrow>
     mode this' = mode this \<and> timeout this' = timeout this"
  by (auto simp: FinalizeTransactionReplicationInternal_def HandleRpcFailure_def Let_def
        split: if_splits sum.splits error.splits)

lemma FinalizeTransactionReplication_demoted:
  assumes "FinalizeTransactionReplication w this = Inr this'"
    and "mode this = ASYNC" and "timeout this = None"
  shows "mode this' = ASYNC \<and> timeout this' = None"
  using assms by (auto simp: FinalizeTransactionReplication_def split: if_splits)

lemma recovery_step_mode:
  "recovery_step w i step s = Inr s' \<Longrightarrow>
     mode (fst s') = mode (fst s) \<and> timeout (fst s') = timeout (fst s)"
  by (cases step)
     (auto simp: recovery_step_def rpc_failed_def HandleRpcFailure_def
        split: if_splits sum.splits error.splits)

lemma recovery_steps_mode:
  "recovery_steps w i steps s = Inr s' \<Longrightarrow>
     mode (fst s') = mode (fst s) \<and> timeout (fst s') = timeout (fst s)"
proof (induction steps arbitrary: i s)
  case Nil
  then show ?case by simp
next
  case (Cons step steps)
  from Cons.prems obtain s1 where
    a: "recovery_step w i step s = Inr s1" and b: "recovery_steps w (Suc i) steps s1 = Inr s'"
    by (auto split: sum.splits)
  from recovery_step_mode [OF a] Cons.IH [OF b] show ?case by simp
qed

lemma RecoverReplica_mode:
  assumes "RecoverReplica w replica_commit this = Inr this'"
  shows "mode this' = mode this \<and> timeout this' = timeout this"
proof -
  from assms obtain steps locked this1 rc1 where
    "recovery_steps w 0 steps (this, replica_commit) = Inr (this1, rc1)"
    and "this' = this1\<lparr>replica_state := READY\<rparr> \<or>
         this' = this1\<lparr>thread_pool := RecoverReplicaTask rc1 # thread_pool this1\<rparr>"
    by (auto simp: RecoverReplica_def split: sum.splits prod.splits if_splits)
  then show ?thesis using recovery_steps_mode by fastforce
qed

lemma run_task_mode:
  assumes "run_task k w task this = Inr this'"
  shows "mode this' = mode this \<and> timeout this' = timeout this"
proof (cases task)
  case ReconnectTask
  with assms show ?thesis by (simp add: run_task_def TryInitializeClient_mode)
next
  case (RecoverReplicaTask rc)
  with assms show ?thesis by (simp add: run_task_def RecoverReplica_mode)
next
  case RecoverReplicaOfResponseTask
  with assms show ?thesis by (simp add: run_task_def RecoverReplica_mode)
next
  case FinalizeTask
  with assms show ?thesis
    by (simp add: run_task_def FinalizeTransactionReplicationInternal_mode)
next
  case FinalizeAndNotifyTask
  with assms show ?thesis
    by (auto simp: run_task_def split: sum.splits option.splits
          dest: FinalizeTransactionReplicationInternal_mode)
next
  case ResetTimeoutDispatcherTask
  with assms show ?thesis by (auto simp: run_task_def)
qed

lemma client_step_demoted:
  assumes "client_step k w event this = Inr this'"
    and "mode this = ASYNC" and "timeout this = None"
  shows "mode this' = ASYNC \<and> timeout this' = None"
proof (cases event)
  case (StartTransaction n)
  with assms show ?thesis
    by (auto simp: client_step_def dest: StartTransactionReplication_mode)
next
  case (IfStreaming callback)
  with assms show ?thesis
    by (auto simp: client_step_def dest: IfStreamingTransaction_mode)
next
  case FinalizeTransaction
  with assms show ?thesis
    by (auto simp: client_step_def dest: FinalizeTransactionReplication_demoted)
next
  case (RunTask i)
  with assms show ?thesis
    by (auto simp: client_step_def split: if_splits dest!: run_task_mode)
qed

lemma client_run_demoted:
  "client_run k events this = Inr this' \<Longrightarrow> mode this = ASYNC \<Longrightarrow> timeout this = None \<Longrightarrow>
     mode this' = ASYNC \<and> timeout this' = None"
proof (induction events arbitrary: this)
  case Nil
  then show ?case by simp
next
  case (Cons e events)
  obtain w event where e: "e = (w, event)" by (cases e)
  with Cons.prems(1) obtain this1 where
    a: "client_step k w event this = Inr this1" and b: "client_run k events this1 = Inr this'"
    by (auto split: sum.splits)
  from client_step_demoted [OF a Cons.prems(2,3)] Cons.IH [OF b] show ?case by simp
qed

text \<open>
  Claim C5.  When a \<open>SYNC\<close> client with a timeout runs
  \<open>FinalizeTransactionReplication\<close> and the timeout wakes the main thread while the
  state is still \<open>REPLICATING\<close>, the call sets the mode to \<open>ASYNC\<close> and clears the
  timeout; and after every sequence of later calls and task runs that the client
  lives through, the mode is still \<open>ASYNC\<close> and the timeout still cleared.
\<close>

theorem timeout_demotes_for_good:
  assumes "replica_state this = REPLICATING" and "mode this = SYNC"
    and "timeout this = Some t" and "timeout_dispatcher this = Some dispatcher"
    and "timed_out w"
  shows "\<exists>this'. FinalizeTransactionReplication w this = Inr this' \<and>
           mode this' = ASYNC \<and> timeout this' = None \<and>
           (\<forall>events this''. client_run k events this' = Inr this'' \<longrightarrow>
              mode this'' = ASYNC \<and> timeout this'' = None)"
proof -
  have "FinalizeTransactionReplication w this =
          Inr (after_wakeup
                (this\<lparr>thread_pool := thread_pool this @ [FinalizeAndNotifyTask],
                      timeout_dispatcher := Some \<lparr>active = False, finished = True\<rparr>\<rparr>))"
    using assms by (simp add: FinalizeTransactionReplication_def)
  moreover have "mode (after_wakeup
                (this\<lparr>thread_pool := thread_pool this @ [FinalizeAndNotifyTask],
                      timeout_dispatcher := Some \<lparr>active = False, finished = True\<rparr>\<rparr>)) = ASYNC"
    using assms(1) by (simp add: after_wakeup_def)
  moreover have "timeout (after_wakeup
                (this\<lparr>thread_pool := thread_pool this @ [FinalizeAndNotifyTask],
                      timeout_dispatcher := Some \<lparr>active = False, finished = True\<rparr>\<rparr>)) = None"
    using assms(1) by (simp add: after_wakeup_def)
  ultimately show ?thesis using client_run_demoted by blast
qed

lemma demoted_client:
  "FinalizeTransactionReplication slow_world replicating_client =
     Inr (replicating_client\<lparr>mode := ASYNC, timeout := None,
            timeout_dispatcher := Some \<lparr>active = False, finished = True\<rparr>,
            thread_pool := [FinalizeAndNotifyTask, ResetTimeoutDispatcherTask]\<rparr>)"
  by (simp add: FinalizeTransactionReplication_def slow_world_def calm_world_def
      replicating_client_def ready_client_def after_wakeup_def)

lemma demoted_client_lives:
  "client_run 0 after_timeout
     (replicating_client\<lparr>mode := ASYNC, timeout := None,
            timeout_dispatcher := Some \<lparr>active = False, finished = True\<rparr>,
            thread_pool := [FinalizeAndNotifyTask, ResetTimeoutDispatcherTask]\<rparr>) =
   Inr (ready_client\<lparr>mode := ASYNC, timeout := None, timeout_dispatcher := None\<rparr>)"
  by (simp add: after_timeout_def client_step_def run_task_def
      FinalizeTransactionReplicationInternal_def StartTransactionReplication_def
      IfStreamingTransaction_def FinalizeTransactionReplication_def
      calm_world_def main_instance_def replicating_client_def ready_client_def Let_def)

theorem timeout_demotes_for_good_witness:
  "replica_state replicating_client = REPLICATING \<and> mode replicating_client = SYNC \<and>
   timeout replicating_client = Some 0.2 \<and>
   timeout_dispatcher replicating_client = Some \<lparr>active = False, finished = True\<rparr> \<and>
   timed_out slow_world \<and>
   (\<exists>this' this''.
      FinalizeTransactionReplication slow_world replicating_client = Inr this' \<and>
      mode this' = ASYNC \<and> timeout this' = None \<and>
      client_run 0 after_timeout this' = Inr this'' \<and>
      replica_state this'' = READY \<and> mode this'' = ASYNC \<and> timeout this'' = None)"
proof -
  have s: "replica_state replicating_client = REPLICATING"
    by (simp add: replicating_client_def)
  have m: "mode replicating_client = SYNC"
    by (simp add: replicating_client_def ready_client_def)
  have t: "timeout replicating_client = Some 0.2"
    by (simp add: replicating_client_def ready_client_def)
  have d: "timeout_dispatcher replicating_client = Some \<lparr>active = False, finished = True\<rparr>"
    by (simp add: replicating_client_def ready_client_def)
  have o: "timed_out slow_world" by (simp add: slow_world_def)
  from timeout_demotes_for_good [OF s m t d o, of 0] obtain this' where
    f: "FinalizeTransactionReplication slow_world replicating_client = Inr this'"
    and a: "mode this' = ASYNC" "timeout this' = None"
    and l: "\<forall>events this''. client_run 0 events this' = Inr this'' \<longrightarrow>
              mode this'' = ASYNC \<and> timeout this'' = None"
    by blast
  from f demoted_client demoted_client_lives have
    r: "client_run 0 after_timeout this' =
          Inr (ready_client\<lparr>mode := ASYNC, timeout := None, timeout_dispatcher := None\<rparr>)"
    by simp
  with l have "mode (ready_client\<lparr>mode := ASYNC, timeout := None, timeout_dispatcher := None\<rparr>) = ASYNC \<and>
      timeout (ready_client\<lparr>mode := ASYNC, timeout := None, timeout_dispatcher := None\<rparr>) = None"
    by blast
  moreover have "replica_state (ready_client\<lparr>mode := ASYNC, timeout := None, timeout_dispatcher := None\<rparr>) = READY"
    by (simp add: ready_client_def)
  ultimately show ?thesis using s m t d o f a r by blast
qed

end
